theory Spec2Isabelle
  imports Main "HOL-Library.Word"
begin

unbundle bit_operations_syntax

section \<open>The board of the Sudoku solver (SudokuBoard.h, SudokuBoard.cpp)\<close>

text \<open>
  The C++ types \<^verbatim>\<open>uc\<close> (unsigned char) and \<^verbatim>\<open>ui\<close> (unsigned int) only
  ever hold coordinates, candidate values, counters and bit indices here; the largest
  value the solver computes with them is far below their range (a bit index is at most
  \<open>(255 + 255 * 9) * 9 + 8\<close>, a counter grows by at most 8 per step of a pass over 81
  cells), so they are natural numbers in the model. The elements of the bit set are
  64-bit words, on which the code works bitwise.
\<close>

datatype GPos = GPos (getX: nat) (getY: nat)

text \<open>
  \<^verbatim>\<open>std::array<ulli, 12> bitset\<close>: the twelve words are addressed by their index.
  The source indexes the array without a bounds check; for a cell of the grid
  (both coordinates below 9) and a value from 1 to 9 the index \<open>bit_index div 64\<close>
  is at most 11.
\<close>

record SudokuBoard =
  bitset :: "nat \<Rightarrow> 64 word"

datatype error = invalid_argument | runtime_error

datatype SimplificationCause =
    NO_VALUE_POSSIBLE
  | ELIMINATION_BY_ROW
  | ELIMINATION_BY_COLUMN
  | ELIMINATION_BY_CHUNK
  | VALUE_SURE_BY_ROW
  | VALUE_SURE_BY_COLUMN
  | VALUE_SURE_BY_CHUNK

subsection \<open>Exceptions and loops\<close>

text \<open>An exception thrown by a callee leaves the caller at once: sequencing on sums.\<close>

definition bindE :: "error + 'a \<Rightarrow> ('a \<Rightarrow> error + 'b) \<Rightarrow> error + 'b" where
  "bindE m f = (case m of Inl e \<Rightarrow> Inl e | Inr a \<Rightarrow> f a)"

text \<open>A \<^verbatim>\<open>for\<close> loop over the values \<open>xs\<close> whose body updates the state \<open>s\<close>.\<close>

fun forE :: "'a list \<Rightarrow> ('a \<Rightarrow> 's \<Rightarrow> error + 's) \<Rightarrow> 's \<Rightarrow> error + 's" where
  "forE [] body s = Inr s"
| "forE (i # is) body s = bindE (body i s) (forE is body)"

subsection \<open>Construction and copies\<close>

definition gpos2bitsetIndex :: "GPos \<Rightarrow> nat" where
  "gpos2bitsetIndex gpos = (let cellIndex = getX gpos + getY gpos * 9 in cellIndex * 9)"

text \<open>The default constructor sets every word to \<^verbatim>\<open>~0ULL\<close>.\<close>

definition SudokuBoard_default :: SudokuBoard where
  "SudokuBoard_default = \<lparr>bitset = (\<lambda>i. NOT 0)\<rparr>"

text \<open>\<^verbatim>\<open>SudokuBoard(std::array<ulli, 12> data)\<close> and \<^verbatim>\<open>copyData\<close>.\<close>

definition SudokuBoard_of :: "(nat \<Rightarrow> 64 word) \<Rightarrow> SudokuBoard" where
  "SudokuBoard_of data = \<lparr>bitset = data\<rparr>"

definition copyData :: "SudokuBoard \<Rightarrow> (nat \<Rightarrow> 64 word)" where
  "copyData b = bitset b"

subsection \<open>Candidate management\<close>

definition isPossibleAt :: "SudokuBoard \<Rightarrow> GPos \<Rightarrow> nat \<Rightarrow> error + bool" where
  "isPossibleAt b gpos val =
     (if \<not> (1 \<le> val \<and> val \<le> 9) then Inl invalid_argument
      else
        let base_index = gpos2bitsetIndex gpos;
            bit_index = base_index + (val - 1);
            bsci = bit_index div 64;
            bsii = bit_index mod 64
        in Inr (bitset b bsci AND push_bit bsii 1 \<noteq> 0))"

text \<open>
  \<^verbatim>\<open>setPossibleAt\<close> is the one function that both throws and writes to the
  board, so its model returns the outcome (the exception or the returned \<^verbatim>\<open>bool\<close>)
  together with the board after the call.
\<close>

definition setPossibleAt ::
  "SudokuBoard \<Rightarrow> GPos \<Rightarrow> nat \<Rightarrow> bool \<Rightarrow> (error + bool) \<times> SudokuBoard" where
  "setPossibleAt b gpos val isPossible =
     (if \<not> (1 \<le> val \<and> val \<le> 9) then (Inl invalid_argument, b)
      else
        let base_index = gpos2bitsetIndex gpos;
            bit_index = base_index + (val - 1);
            bsci = bit_index div 64;
            bsii = bit_index mod 64;
            mask = push_bit bsii 1;
            currently = (bitset b bsci AND mask \<noteq> 0)
        in if currently = isPossible then (Inr False, b)
           else if isPossible
             then (Inr True, b\<lparr>bitset := (bitset b)(bsci := bitset b bsci OR mask)\<rparr>)
             else (Inr True, b\<lparr>bitset := (bitset b)(bsci := bitset b bsci AND NOT mask)\<rparr>))"

text \<open>
  A caller of \<^verbatim>\<open>setPossibleAt\<close> that drops the returned \<^verbatim>\<open>bool\<close>: it goes
  on with the board after the call, or is left by the exception. Nothing in the program
  catches an exception, so the callers' models return no board in that case.
\<close>

definition setPossibleAt_then ::
  "SudokuBoard \<Rightarrow> GPos \<Rightarrow> nat \<Rightarrow> bool \<Rightarrow> (SudokuBoard \<Rightarrow> error + 'a) \<Rightarrow> error + 'a" where
  "setPossibleAt_then b gpos val isPossible k =
     (case setPossibleAt b gpos val isPossible of
        (Inl e, _) \<Rightarrow> Inl e
      | (Inr _, b') \<Rightarrow> k b')"

text \<open>
  \<^verbatim>\<open>makeSureAt\<close>: the loop over \<open>v = 1, ..., 9\<close>; the results of
  \<^verbatim>\<open>setPossibleAt\<close> are dropped, its exception would propagate.
\<close>

definition makeSureAt :: "SudokuBoard \<Rightarrow> GPos \<Rightarrow> nat \<Rightarrow> bool \<Rightarrow> error + SudokuBoard" where
  "makeSureAt b gpos val force =
     forE [1..<10]
       (\<lambda>v b. if v = val
          then (if force then setPossibleAt_then b gpos v True Inr else Inr b)
          else setPossibleAt_then b gpos v False Inr)
       b"

text \<open>
  \<^verbatim>\<open>getCellInfoAt\<close> returns the only value (or 0) and writes the count through its
  reference parameter: the model returns the pair (returned value, count). The loop
  state is (count, onlyValue).
\<close>

definition getCellInfoAt :: "SudokuBoard \<Rightarrow> GPos \<Rightarrow> error + (nat \<times> nat)" where
  "getCellInfoAt b gpos =
     bindE (forE [1..<10]
              (\<lambda>v (count, onlyValue).
                 bindE (isPossibleAt b gpos v)
                   (\<lambda>p. if p then Inr (count + 1, v) else Inr (count, onlyValue)))
              (0, 0))
       (\<lambda>(count, onlyValue). Inr (if count = 1 then onlyValue else 0, count))"

definition getOnlyPossibleValue :: "SudokuBoard \<Rightarrow> GPos \<Rightarrow> error + nat" where
  "getOnlyPossibleValue b gpos = bindE (getCellInfoAt b gpos) (\<lambda>(only, cnt). Inr only)"

definition getPossiblesCountAt :: "SudokuBoard \<Rightarrow> GPos \<Rightarrow> error + nat" where
  "getPossiblesCountAt b gpos = bindE (getCellInfoAt b gpos) (\<lambda>(only, cnt). Inr cnt)"

definition getCandiatesAt :: "SudokuBoard \<Rightarrow> GPos \<Rightarrow> error + nat list" where
  "getCandiatesAt b gpos =
     forE [1..<10]
       (\<lambda>v candidates.
          bindE (isPossibleAt b gpos v)
            (\<lambda>p. if p then Inr (candidates @ [v]) else Inr candidates))
       []"

subsection \<open>One pass of simplification\<close>

text \<open>
  The state of a pass: the board, the counter \<^verbatim>\<open>eliminations\<close>, and the state
  \<open>obs\<close> of whatever the listener callbacks write to (a terminal, counters). A callback
  receives its arguments by const reference and returns nothing, so it is a function that
  maps its arguments to a change of \<open>obs\<close>; it is taken to return.
\<close>

record 's pass =
  board :: SudokuBoard
  eliminations :: nat
  obs :: 's

type_synonym 's eliminateListener = "SimplificationCause \<Rightarrow> GPos \<Rightarrow> nat \<Rightarrow> nat \<Rightarrow> 's \<Rightarrow> 's"

text \<open>The body of the three naked-single loops, for one peer.\<close>

definition eliminate_peer ::
  "'s eliminateListener \<Rightarrow> SimplificationCause \<Rightarrow> nat \<Rightarrow> nat \<Rightarrow> GPos \<Rightarrow> 's pass \<Rightarrow> error + 's pass" where
  "eliminate_peer eventListener cause by onlyVal peer st =
     bindE (isPossibleAt (board st) peer onlyVal)
       (\<lambda>p. if p
          then setPossibleAt_then (board st) peer onlyVal False
                 (\<lambda>b'. Inr \<lparr>board = b', eliminations = eliminations st + 1,
                              obs = eventListener cause peer onlyVal by (obs st)\<rparr>)
          else Inr st)"

text \<open>The cells of the chunk that starts at \<open>(chunkStartX, chunkStartY)\<close>, in scan order.\<close>

definition chunk_cells :: "nat \<Rightarrow> nat \<Rightarrow> GPos list" where
  "chunk_cells chunkStartX chunkStartY =
     concat (map (\<lambda>by. map (\<lambda>bx. GPos bx by) [chunkStartX..<chunkStartX + 3])
                 [chunkStartY..<chunkStartY + 3])"

definition naked_single :: "'s eliminateListener \<Rightarrow> nat \<Rightarrow> nat \<Rightarrow> nat \<Rightarrow> 's pass \<Rightarrow> error + 's pass" where
  "naked_single eventListener x y onlyVal st =
     (let chunkX = x div 3; chunkY = y div 3;
          chunkStartX = chunkX * 3; chunkStartY = chunkY * 3
      in
      bindE (forE [0..<9]
               (\<lambda>cx st. if cx = x then Inr st
                  else eliminate_peer eventListener ELIMINATION_BY_ROW y onlyVal (GPos cx y) st)
               st) (\<lambda>st.
      bindE (forE [0..<9]
               (\<lambda>cy st. if cy = y then Inr st
                  else eliminate_peer eventListener ELIMINATION_BY_COLUMN x onlyVal (GPos x cy) st)
               st) (\<lambda>st.
      forE (chunk_cells chunkStartX chunkStartY)
        (\<lambda>peer st. if getX peer = x \<and> getY peer = y then Inr st
           else eliminate_peer eventListener ELIMINATION_BY_CHUNK (chunkX + 3 * chunkY) onlyVal peer st)
        st)))"

text \<open>
  The row and column checks of the hidden-single rule scan all peers and clear
  \<^verbatim>\<open>success\<close> at every peer that can still hold \<open>v\<close>.
\<close>

definition unique_in ::
  "SudokuBoard \<Rightarrow> nat \<Rightarrow> nat \<Rightarrow> nat \<Rightarrow> GPos list \<Rightarrow> error + bool" where
  "unique_in b x y v peers =
     forE peers
       (\<lambda>peer success. if getX peer = x \<and> getY peer = y then Inr success
          else bindE (isPossibleAt b peer v) (\<lambda>p. Inr (if p then False else success)))
       True"

text \<open>
  The chunk check leaves both of its loops at the first peer that can hold \<open>v\<close>:
  a scan of the chunk's cells that stops there.
\<close>

fun unique_in_chunk :: "SudokuBoard \<Rightarrow> nat \<Rightarrow> nat \<Rightarrow> nat \<Rightarrow> GPos list \<Rightarrow> error + bool" where
  "unique_in_chunk b x y v [] = Inr True"
| "unique_in_chunk b x y v (peer # peers) =
     (if getX peer = x \<and> getY peer = y then unique_in_chunk b x y v peers
      else bindE (isPossibleAt b peer v)
             (\<lambda>p. if p then Inr False else unique_in_chunk b x y v peers))"

text \<open>
  What the three \<^verbatim>\<open>if (success)\<close> blocks do: add \<open>cnt - 1\<close> with the count \<open>cnt\<close>
  read before the loop over \<open>v\<close>, notify, and keep \<open>v\<close> only.
\<close>

definition value_sure ::
  "'s eliminateListener \<Rightarrow> SimplificationCause \<Rightarrow> nat \<Rightarrow> nat \<Rightarrow> GPos \<Rightarrow> nat \<Rightarrow> 's pass \<Rightarrow> error + 's pass" where
  "value_sure eventListener cause by cnt selfPos v st =
     bindE (makeSureAt (board st) selfPos v False)
       (\<lambda>b'. Inr \<lparr>board = b', eliminations = eliminations st + (cnt - 1),
                  obs = eventListener cause selfPos v by (obs st)\<rparr>)"

definition hidden_single_value ::
  "'s eliminateListener \<Rightarrow> nat \<Rightarrow> nat \<Rightarrow> nat \<Rightarrow> nat \<Rightarrow> 's pass \<Rightarrow> error + 's pass" where
  "hidden_single_value eventListener x y cnt v st =
     (let selfPos = GPos x y;
          chunkX = x div 3; chunkY = y div 3;
          chunkStartX = chunkX * 3; chunkStartY = chunkY * 3
      in
      bindE (isPossibleAt (board st) selfPos v) (\<lambda>p.
      if \<not> p then Inr st
      else
        bindE (unique_in (board st) x y v (map (\<lambda>cx. GPos cx y) [0..<9])) (\<lambda>success.
        bindE (if success then value_sure eventListener VALUE_SURE_BY_ROW y cnt selfPos v st
               else Inr st) (\<lambda>st.
        bindE (unique_in (board st) x y v (map (\<lambda>cy. GPos x cy) [0..<9])) (\<lambda>success.
        bindE (if success then value_sure eventListener VALUE_SURE_BY_COLUMN x cnt selfPos v st
               else Inr st) (\<lambda>st.
        bindE (unique_in_chunk (board st) x y v (chunk_cells chunkStartX chunkStartY)) (\<lambda>success.
        if success
          then value_sure eventListener VALUE_SURE_BY_CHUNK (chunkX + 3 * chunkY) cnt selfPos v st
          else Inr st)))))))"

text \<open>
  The body of the loops over \<open>y\<close> and \<open>x\<close> for one cell. The result \<open>False\<close> is the
  \<^verbatim>\<open>return false\<close> of the pass, \<open>True\<close> goes on to the next cell.
\<close>

definition simplify_cell :: "'s eliminateListener \<Rightarrow> GPos \<Rightarrow> 's pass \<Rightarrow> error + (bool \<times> 's pass)" where
  "simplify_cell eventListener selfPos st =
     (let x = getX selfPos; y = getY selfPos in
      bindE (getCellInfoAt (board st) selfPos) (\<lambda>(onlyVal, cnt).
      if cnt = 0
        then Inr (False, st\<lparr>obs := eventListener NO_VALUE_POSSIBLE selfPos 0 0 (obs st)\<rparr>)
      else
        bindE (if cnt = 1 then naked_single eventListener x y onlyVal st else Inr st) (\<lambda>st.
        bindE (getCellInfoAt (board st) selfPos) (\<lambda>(onlyVal, cnt).
        if cnt = 0
          then Inr (False, st\<lparr>obs := eventListener NO_VALUE_POSSIBLE selfPos 0 0 (obs st)\<rparr>)
        else if cnt = 1 then Inr (True, st)
        else bindE (forE [1..<10] (hidden_single_value eventListener x y cnt) st)
               (\<lambda>st. Inr (True, st))))))"

fun simplify_cells :: "'s eliminateListener \<Rightarrow> GPos list \<Rightarrow> 's pass \<Rightarrow> error + (bool \<times> 's pass)" where
  "simplify_cells eventListener [] st = Inr (True, st)"
| "simplify_cells eventListener (selfPos # cells) st =
     bindE (simplify_cell eventListener selfPos st)
       (\<lambda>(go_on, st). if go_on then simplify_cells eventListener cells st else Inr (False, st))"

text \<open>Row-major order: \<open>y\<close> outside, \<open>x\<close> inside.\<close>

definition all_cells :: "GPos list" where
  "all_cells = concat (map (\<lambda>y. map (\<lambda>x. GPos x y) [0..<9]) [0..<9])"

text \<open>
  \<^verbatim>\<open>simplify\<close> returns its \<^verbatim>\<open>bool\<close> and leaves the count in its reference
  parameter; the model returns (result, eliminations, board, obs).
\<close>

definition simplify ::
  "'s eliminateListener \<Rightarrow> SudokuBoard \<Rightarrow> 's \<Rightarrow> error + (bool \<times> nat \<times> SudokuBoard \<times> 's)" where
  "simplify eventListener b s =
     bindE (simplify_cells eventListener all_cells \<lparr>board = b, eliminations = 0, obs = s\<rparr>)
       (\<lambda>(ok, st). Inr (ok, eliminations st, board st, obs st))"

subsection \<open>Status checks and the choice of the branching cell\<close>

fun isSolved_cells :: "SudokuBoard \<Rightarrow> GPos list \<Rightarrow> error + bool" where
  "isSolved_cells b [] = Inr True"
| "isSolved_cells b (gp # cells) =
     bindE (getCellInfoAt b gp)
       (\<lambda>(only, cnt). if cnt \<noteq> 1 then Inr False else isSolved_cells b cells)"

definition isSolved :: "SudokuBoard \<Rightarrow> error + bool" where
  "isSolved b = isSolved_cells b all_cells"

fun hasContradiction_cells :: "SudokuBoard \<Rightarrow> GPos list \<Rightarrow> error + bool" where
  "hasContradiction_cells b [] = Inr False"
| "hasContradiction_cells b (gp # cells) =
     bindE (getCellInfoAt b gp)
       (\<lambda>(only, cnt). if cnt = 0 then Inr True else hasContradiction_cells b cells)"

definition hasContradiction :: "SudokuBoard \<Rightarrow> error + bool" where
  "hasContradiction b = hasContradiction_cells b all_cells"

text \<open>
  The scan of \<^verbatim>\<open>findMRVCell\<close> with its locals \<open>bestPos\<close> and \<open>bestCount\<close>.
  \<open>Inl\<close> of the inner sum is the \<^verbatim>\<open>return { gp, 0 }\<close> inside the loop,
  \<open>Inr\<close> is the end of the loop with the locals.
\<close>

fun findMRVCell_scan ::
  "SudokuBoard \<Rightarrow> GPos list \<Rightarrow> GPos \<Rightarrow> nat \<Rightarrow> error + ((GPos \<times> nat) + (GPos \<times> nat))" where
  "findMRVCell_scan b [] bestPos bestCount = Inr (Inr (bestPos, bestCount))"
| "findMRVCell_scan b (gp # cells) bestPos bestCount =
     bindE (getCellInfoAt b gp)
       (\<lambda>(only, cnt).
          if cnt = 0 then Inr (Inl (gp, 0))
          else if cnt > 1 \<and> cnt < bestCount then findMRVCell_scan b cells gp cnt
          else findMRVCell_scan b cells bestPos bestCount)"

definition findMRVCell :: "SudokuBoard \<Rightarrow> error + (GPos \<times> nat)" where
  "findMRVCell b =
     bindE (findMRVCell_scan b all_cells (GPos 0 0) 10)
       (\<lambda>r. case r of
          Inl found \<Rightarrow> Inr found
        | Inr (bestPos, bestCount) \<Rightarrow>
            if bestCount = 10 then Inl runtime_error else Inr (bestPos, bestCount))"

section \<open>Facts about the board\<close>

subsection \<open>Sequencing\<close>

lemma bindE_Inr [simp]: "bindE (Inr a) f = f a"
  by (simp add: bindE_def)

lemma bindE_Inl [simp]: "bindE (Inl e) f = Inl e"
  by (simp add: bindE_def)

lemma bindE_eq_Inr: "bindE m f = Inr r \<longleftrightarrow> (\<exists>a. m = Inr a \<and> f a = Inr r)"
  by (cases m) simp_all

lemma forE_append: "forE (xs @ ys) body s = bindE (forE xs body s) (forE ys body)"
  by (induction xs arbitrary: s) (auto simp add: bindE_def split: sum.splits)

lemma forE_invariant:
  assumes "I s"
    and "\<And>i s. i \<in> set xs \<Longrightarrow> I s \<Longrightarrow> \<exists>s'. body i s = Inr s' \<and> I s'"
  shows "\<exists>s'. forE xs body s = Inr s' \<and> I s'"
  using assms
proof (induction xs arbitrary: s)
  case Nil
  then show ?case by simp
next
  case (Cons i xs)
  from Cons.prems obtain s1 where s1: "body i s = Inr s1" "I s1"
    by (meson list.set_intros(1))
  have "\<exists>s'. forE xs body s1 = Inr s' \<and> I s'"
    by (rule Cons.IH [OF s1(2)]) (simp add: Cons.prems(2))
  then show ?case using s1 by simp
qed

subsection \<open>The flag of a cell and a value\<close>

definition flag_index :: "GPos \<Rightarrow> nat \<Rightarrow> nat" where
  "flag_index gpos val = gpos2bitsetIndex gpos + (val - 1)"

text \<open>The bit that \<^verbatim>\<open>isPossibleAt\<close> reads and \<^verbatim>\<open>setPossibleAt\<close> writes.\<close>

definition cand :: "SudokuBoard \<Rightarrow> GPos \<Rightarrow> nat \<Rightarrow> bool" where
  "cand b gpos val = bit (bitset b (flag_index gpos val div 64)) (flag_index gpos val mod 64)"

definition setFlag :: "SudokuBoard \<Rightarrow> GPos \<Rightarrow> nat \<Rightarrow> bool \<Rightarrow> SudokuBoard" where
  "setFlag b gpos val on =
     (let i = flag_index gpos val div 64; j = flag_index gpos val mod 64
      in b\<lparr>bitset := (bitset b)(i := (if on then set_bit j (bitset b i) else unset_bit j (bitset b i)))\<rparr>)"

definition setP :: "SudokuBoard \<Rightarrow> GPos \<Rightarrow> nat \<Rightarrow> bool \<Rightarrow> SudokuBoard" where
  "setP b p v on = (if cand b p v = on then b else setFlag b p v on)"

text \<open>A cell of the grid, and a candidate value.\<close>

definition valid_pos :: "GPos \<Rightarrow> bool" where
  "valid_pos p \<longleftrightarrow> getX p < 9 \<and> getY p < 9"

definition valid_val :: "nat \<Rightarrow> bool" where
  "valid_val v \<longleftrightarrow> 1 \<le> v \<and> v \<le> 9"

lemma and_mask_neq0: "((w::64 word) AND push_bit n 1 \<noteq> 0) = bit w n"
proof
  assume "w AND push_bit n 1 \<noteq> 0"
  then obtain k where "bit (w AND push_bit n 1) k"
    by (auto simp add: bit_eq_iff)
  then show "bit w n"
    by (auto simp add: bit_and_iff bit_push_bit_iff bit_1_iff bit_exp_iff)
next
  assume "bit w n"
  then have "bit (w AND push_bit n 1) n"
    by (auto simp add: bit_and_iff bit_push_bit_iff bit_1_iff bit_exp_iff dest: bit_imp_possible_bit)
  then show "w AND push_bit n 1 \<noteq> 0"
    by auto
qed

lemma isPossibleAt_cand: "valid_val v \<Longrightarrow> isPossibleAt b p v = Inr (cand b p v)"
  unfolding isPossibleAt_def cand_def flag_index_def Let_def and_mask_neq0 valid_val_def by simp

lemma isPossibleAt_invalid: "\<not> valid_val v \<Longrightarrow> isPossibleAt b p v = Inl invalid_argument"
  unfolding isPossibleAt_def valid_val_def by simp

lemma setPossibleAt_eq:
  "valid_val v \<Longrightarrow> setPossibleAt b p v on = (Inr (cand b p v \<noteq> on), setP b p v on)"
  unfolding setPossibleAt_def cand_def flag_index_def Let_def and_mask_neq0 setFlag_def setP_def
    valid_val_def
  by (simp add: set_bit_eq_or unset_bit_eq_and_not)

lemma setPossibleAt_invalid:
  "\<not> valid_val v \<Longrightarrow> setPossibleAt b p v on = (Inl invalid_argument, b)"
  unfolding setPossibleAt_def valid_val_def by simp

lemma setPossibleAt_then_eq:
  "valid_val v \<Longrightarrow> setPossibleAt_then b p v on k = k (setP b p v on)"
  by (simp add: setPossibleAt_then_def setPossibleAt_eq)

lemma flag_index_eq: "flag_index p v = 9 * (getX p + getY p * 9) + (v - 1)"
  by (simp add: flag_index_def gpos2bitsetIndex_def)

lemma flag_index_mod9: "valid_val v \<Longrightarrow> flag_index p v mod 9 = v - 1"
  unfolding flag_index_eq valid_val_def by (subst mod_mult_self4) auto

lemma flag_index_div9: "valid_val v \<Longrightarrow> flag_index p v div 9 = getX p + getY p * 9"
  unfolding flag_index_eq valid_val_def by (subst div_mult_self4) auto

lemma flag_index_inj:
  assumes "getX p < 9" "getX p' < 9" "valid_val v" "valid_val v'"
    and eq: "flag_index p v = flag_index p' v'"
  shows "p = p' \<and> v = v'"
proof -
  have "v - 1 = v' - 1"
    using flag_index_mod9 [of v p] flag_index_mod9 [of v' p'] assms by simp
  then have v: "v = v'" using assms by (auto simp add: valid_val_def)
  have c: "getX p + getY p * 9 = getX p' + getY p' * 9"
    using flag_index_div9 [of v p] flag_index_div9 [of v' p'] assms by simp
  have "(getX p + getY p * 9) mod 9 = (getX p' + getY p' * 9) mod 9"
    using c by simp
  then have x: "getX p = getX p'" using assms by simp
  then have y: "getY p = getY p'" using c by simp
  show ?thesis using x y v by (simp add: GPos.expand)
qed

lemma cand_setFlag_same: "cand (setFlag b p v on) p v = on"
  unfolding cand_def setFlag_def Let_def
  by (simp add: bit_set_bit_iff bit_unset_bit_iff)

lemma div_mod_64_eq: "(a::nat) div 64 = b div 64 \<Longrightarrow> a mod 64 = b mod 64 \<Longrightarrow> a = b"
  by (metis div_mult_mod_eq)

lemma cand_setFlag_other:
  assumes "flag_index p' v' \<noteq> flag_index p v"
  shows "cand (setFlag b p v on) p' v' = cand b p' v'"
  using assms div_mod_64_eq [of "flag_index p' v'" "flag_index p v"]
  unfolding cand_def setFlag_def Let_def
  by (auto simp add: bit_set_bit_iff bit_unset_bit_iff)

lemma cand_setP_same: "cand (setP b p v on) p v = on"
  by (simp add: setP_def cand_setFlag_same)

lemma cand_setP:
  assumes "valid_pos p" "valid_pos p'" "valid_val v" "valid_val v'"
  shows "cand (setP b p v on) p' v' = (if p' = p \<and> v' = v then on else cand b p' v')"
  using assms flag_index_inj [of p' p v' v] cand_setFlag_other [of p' v' p v b on]
  by (auto simp add: setP_def cand_setFlag_same valid_pos_def)

subsection \<open>The candidates of a cell\<close>

definition candidates :: "SudokuBoard \<Rightarrow> GPos \<Rightarrow> nat list" where
  "candidates b p = filter (cand b p) [1..<10]"

lemma valid_val_upt: "v \<in> set [1..<10] \<longleftrightarrow> valid_val v"
  by (auto simp add: valid_val_def)

lemma all_valid_val_upt: "\<forall>v\<in>set [1..<10]. valid_val v"
  by (auto simp add: valid_val_def)

lemma candidates_iff: "v \<in> set (candidates b p) \<longleftrightarrow> valid_val v \<and> cand b p v"
  by (auto simp add: candidates_def valid_val_def)

lemma candidates_le9: "length (candidates b p) \<le> 9"
proof -
  have "length (candidates b p) \<le> length [1..<(10::nat)]"
    unfolding candidates_def by (rule length_filter_le)
  then show ?thesis by simp
qed

lemma getCandiatesAt_loop:
  "\<forall>v\<in>set vs. valid_val v \<Longrightarrow>
   forE vs (\<lambda>v candidates. bindE (isPossibleAt b p v)
            (\<lambda>q. if q then Inr (candidates @ [v]) else Inr candidates)) acc
   = Inr (acc @ filter (cand b p) vs)"
  by (induction vs arbitrary: acc) (simp_all add: isPossibleAt_cand)

lemma getCandiatesAt_eq: "getCandiatesAt b p = Inr (candidates b p)"
  unfolding getCandiatesAt_def candidates_def
  using getCandiatesAt_loop [OF all_valid_val_upt, of b p "[]"] by simp

lemma getCellInfoAt_loop:
  "\<forall>v\<in>set vs. valid_val v \<Longrightarrow>
   forE vs (\<lambda>v (count, onlyValue). bindE (isPossibleAt b p v)
            (\<lambda>q. if q then Inr (count + 1, v) else Inr (count, onlyValue))) (c, ov)
   = Inr (c + length (filter (cand b p) vs),
          if filter (cand b p) vs = [] then ov else last (filter (cand b p) vs))"
  by (induction vs arbitrary: c ov) (simp_all add: isPossibleAt_cand)

lemma getCellInfoAt_eq:
  "getCellInfoAt b p =
     Inr (if length (candidates b p) = 1 then last (candidates b p) else 0, length (candidates b p))"
  unfolding getCellInfoAt_def candidates_def
  by (subst getCellInfoAt_loop [OF all_valid_val_upt]) auto

lemma getPossiblesCountAt_eq: "getPossiblesCountAt b p = Inr (length (candidates b p))"
  by (simp add: getPossiblesCountAt_def getCellInfoAt_eq)

lemma getOnlyPossibleValue_eq:
  "getOnlyPossibleValue b p = Inr (if length (candidates b p) = 1 then last (candidates b p) else 0)"
  by (simp add: getOnlyPossibleValue_def getCellInfoAt_eq)

subsection \<open>\<^verbatim>\<open>makeSureAt\<close>\<close>

definition sure_step :: "GPos \<Rightarrow> nat \<Rightarrow> bool \<Rightarrow> nat \<Rightarrow> SudokuBoard \<Rightarrow> SudokuBoard" where
  "sure_step p val force v b =
     (if v = val then (if force then setP b p v True else b) else setP b p v False)"

definition makeSure :: "SudokuBoard \<Rightarrow> GPos \<Rightarrow> nat \<Rightarrow> bool \<Rightarrow> SudokuBoard" where
  "makeSure b p val force = fold (sure_step p val force) [1..<10] b"

lemma makeSureAt_loop:
  "\<forall>v\<in>set vs. valid_val v \<Longrightarrow>
   forE vs (\<lambda>v b. if v = val
          then (if force then setPossibleAt_then b p v True Inr else Inr b)
          else setPossibleAt_then b p v False Inr) b
   = Inr (fold (sure_step p val force) vs b)"
  by (induction vs arbitrary: b) (auto simp add: setPossibleAt_then_eq sure_step_def)

lemma makeSureAt_eq: "makeSureAt b p val force = Inr (makeSure b p val force)"
  unfolding makeSureAt_def makeSure_def
  by (rule makeSureAt_loop [OF all_valid_val_upt])

lemma cand_sure_fold:
  assumes "valid_pos p" "valid_pos p'" "valid_val v'" "\<forall>v\<in>set vs. valid_val v"
  shows "cand (fold (sure_step p val force) vs b) p' v' =
     (if p' = p \<and> v' \<in> set vs then v' = val \<and> (force \<or> cand b p v') else cand b p' v')"
  using assms(4)
proof (induction vs arbitrary: b)
  case Nil
  then show ?case by simp
next
  case (Cons v vs)
  then have v: "valid_val v" and vs: "\<forall>v\<in>set vs. valid_val v" by auto
  have step: "cand (sure_step p val force v b) q w =
      (if q = p \<and> w = v then w = val \<and> (force \<or> cand b p w) else cand b q w)"
    if "valid_pos q" "valid_val w" for q w
    using that assms(1) v by (auto simp add: sure_step_def cand_setP)
  show ?case
    using Cons.IH [OF vs, of "sure_step p val force v b"] step [OF assms(2,3)] step [OF assms(1,3)] assms
    by auto
qed

lemma cand_makeSure:
  assumes "valid_pos p" "valid_pos p'" "valid_val v'"
  shows "cand (makeSure b p val force) p' v' =
     (if p' = p then v' = val \<and> (force \<or> cand b p v') else cand b p' v')"
  unfolding makeSure_def
  using assms valid_val_upt [of v']
  by (subst cand_sure_fold [OF assms all_valid_val_upt]) simp

lemma cand_default: "cand SudokuBoard_default p v"
  by (simp add: cand_def SudokuBoard_default_def bit_not_iff)

lemma filter_eq_single: "distinct xs \<Longrightarrow> v \<in> set xs \<Longrightarrow> filter (\<lambda>x. x = v) xs = [v]"
  by (induction xs) (auto simp add: filter_empty_conv)

lemma candidates_makeSure_self:
  assumes "valid_pos p"
  shows "candidates (makeSure b p val force) p =
     (if valid_val val \<and> (force \<or> cand b p val) then [val] else [])"
proof -
  have "candidates (makeSure b p val force) p =
      filter (\<lambda>v'. v' = val \<and> (force \<or> cand b p v')) [1..<10]"
    unfolding candidates_def
  proof (rule filter_cong [OF refl])
    fix x assume "x \<in> set [1..<10]"
    then have "valid_val x" by (simp only: valid_val_upt)
    then show "cand (makeSure b p val force) p x = (x = val \<and> (force \<or> cand b p x))"
      by (simp add: cand_makeSure [OF assms assms])
  qed
  also have "\<dots> = (if valid_val val \<and> (force \<or> cand b p val) then [val] else [])"
  proof (cases "valid_val val \<and> (force \<or> cand b p val)")
    case True
    then have "filter (\<lambda>v'. v' = val \<and> (force \<or> cand b p v')) [1..<10] = filter (\<lambda>v'. v' = val) [1..<10]"
      by (intro filter_cong) auto
    then show ?thesis
      using True filter_eq_single [of "[1..<10]" val] valid_val_upt [of val] by simp
  next
    case False
    then have "filter (\<lambda>v'. v' = val \<and> (force \<or> cand b p v')) [1..<10] = []"
      using valid_val_upt unfolding filter_empty_conv by blast
    then show ?thesis using False by simp
  qed
  finally show ?thesis .
qed

lemma candidates_makeSure_other:
  assumes "valid_pos p" "valid_pos p'" "p' \<noteq> p"
  shows "candidates (makeSure b p val force) p' = candidates b p'"
  unfolding candidates_def
proof (rule filter_cong [OF refl])
  fix x assume "x \<in> set [1..<10]"
  then have "valid_val x" by (simp only: valid_val_upt)
  then show "cand (makeSure b p val force) p' x = cand b p' x"
    by (simp add: cand_makeSure [OF assms(1,2)] assms(3))
qed

section \<open>Facts about a pass\<close>

subsection \<open>The cells of the grid\<close>

lemma set_all_cells: "p \<in> set all_cells \<longleftrightarrow> valid_pos p"
proof -
  have "p \<in> set all_cells \<longleftrightarrow> (\<exists>y<9. \<exists>x<9. p = GPos x y)"
    by (fastforce simp add: all_cells_def)
  also have "\<dots> \<longleftrightarrow> valid_pos p"
    by (cases p) (auto simp add: valid_pos_def)
  finally show ?thesis .
qed

lemma length_all_cells: "length all_cells = 81"
  by (simp add: all_cells_def length_concat comp_def sum_list_triv)

lemma valid_chunk_cells:
  assumes "x < 9" "y < 9" "p \<in> set (chunk_cells (x div 3 * 3) (y div 3 * 3))"
  shows "valid_pos p"
proof -
  from assms(3) obtain bx "by" where p: "p = GPos bx by"
    and bx: "x div 3 * 3 \<le> bx" "bx < x div 3 * 3 + 3"
    and "by": "y div 3 * 3 \<le> by" "by < y div 3 * 3 + 3"
    by (auto simp add: chunk_cells_def)
  have "x div 3 * 3 + 3 \<le> 9" "y div 3 * 3 + 3 \<le> 9" using assms(1,2) by presburger+
  then show ?thesis using p bx "by" by (simp add: valid_pos_def)
qed

subsection \<open>The set of flags of a board\<close>

definition flags :: "SudokuBoard \<Rightarrow> (GPos \<times> nat) set" where
  "flags b = {(p, v). valid_pos p \<and> valid_val v \<and> cand b p v}"

definition nflags :: "SudokuBoard \<Rightarrow> nat" where
  "nflags b = card (flags b)"

lemma flags_subset_grid: "flags b \<subseteq> set all_cells \<times> set [1..<10]"
  by (auto simp add: flags_def set_all_cells valid_val_def)

lemma finite_flags: "finite (flags b)"
  by (rule finite_subset [OF flags_subset_grid]) simp


lemma nflags_less: "flags b' \<subseteq> flags b \<Longrightarrow> flags b' \<noteq> flags b \<Longrightarrow> nflags b' < nflags b"
  unfolding nflags_def by (intro psubset_card_mono finite_flags) auto

lemma nflags_mono: "flags b' \<subseteq> flags b \<Longrightarrow> nflags b' \<le> nflags b"
  unfolding nflags_def by (intro card_mono finite_flags)

lemma flags_setP_off:
  assumes "valid_pos p" "valid_val v"
  shows "flags (setP b p v False) = flags b - {(p, v)}"
  using assms by (auto simp add: flags_def cand_setP split: if_splits)

lemma flags_makeSure_off:
  assumes "valid_pos p"
  shows "flags (makeSure b p v False) = flags b - {(q, w). q = p \<and> w \<noteq> v}"
  using assms by (auto simp add: flags_def cand_makeSure split: if_splits)

subsection \<open>What a pass does to the flags and to its counter\<close>

definition pass_le :: "'s pass \<Rightarrow> 's pass \<Rightarrow> bool" where
  "pass_le st st' \<longleftrightarrow>
     flags (board st') \<subseteq> flags (board st) \<and>
     eliminations st \<le> eliminations st' \<and>
     (eliminations st < eliminations st' \<longrightarrow> flags (board st') \<noteq> flags (board st))"

lemma pass_le_refl: "pass_le st st"
  by (simp add: pass_le_def)

lemma pass_le_trans: "pass_le st st' \<Longrightarrow> pass_le st' st'' \<Longrightarrow> pass_le st st''"
proof -
  assume a: "pass_le st st'" and b: "pass_le st' st''"
  have sub: "flags (board st'') \<subseteq> flags (board st)"
    using a b unfolding pass_le_def by blast
  have le: "eliminations st \<le> eliminations st''"
    using a b unfolding pass_le_def by linarith
  have ne: "flags (board st'') \<noteq> flags (board st)" if lt: "eliminations st < eliminations st''"
  proof (cases "eliminations st < eliminations st'")
    case True
    then have "flags (board st') \<noteq> flags (board st)" using a unfolding pass_le_def by blast
    moreover have "flags (board st'') \<subseteq> flags (board st')" "flags (board st') \<subseteq> flags (board st)"
      using a b unfolding pass_le_def by blast+
    ultimately show ?thesis by blast
  next
    case False
    then have "eliminations st' < eliminations st''" using lt by linarith
    then have "flags (board st'') \<noteq> flags (board st')" using b unfolding pass_le_def by blast
    moreover have "flags (board st'') \<subseteq> flags (board st')" "flags (board st') \<subseteq> flags (board st)"
      using a b unfolding pass_le_def by blast+
    ultimately show ?thesis by blast
  qed
  show ?thesis unfolding pass_le_def using sub le ne by blast
qed

lemma pass_le_obs: "pass_le st (st'\<lparr>obs := z\<rparr>) = pass_le st st'"
  by (simp add: pass_le_def)

lemma eliminate_peer_eq:
  assumes "valid_val onlyVal"
  shows "eliminate_peer L cause by' onlyVal peer st =
     Inr (if cand (board st) peer onlyVal
          then \<lparr>board = setP (board st) peer onlyVal False, eliminations = eliminations st + 1,
                obs = L cause peer onlyVal by' (obs st)\<rparr>
          else st)"
  using assms by (simp add: eliminate_peer_def isPossibleAt_cand setPossibleAt_then_eq)

lemma eliminate_peer_le:
  assumes "valid_val onlyVal" "valid_pos peer"
  shows "\<exists>st'. eliminate_peer L cause by' onlyVal peer st = Inr st' \<and> pass_le st st'"
proof (cases "cand (board st) peer onlyVal")
  case True
  then have "(peer, onlyVal) \<in> flags (board st)"
    using assms by (simp add: flags_def)
  then show ?thesis
    using True assms by (auto simp add: eliminate_peer_eq pass_le_def flags_setP_off)
next
  case False
  then show ?thesis using assms by (simp add: eliminate_peer_eq pass_le_refl)
qed

lemma forE_pass_le:
  assumes "\<And>i s. i \<in> set xs \<Longrightarrow> \<exists>s'. body i s = Inr s' \<and> pass_le s s'"
  shows "\<exists>st'. forE xs body st = Inr st' \<and> pass_le st st'"
proof (rule forE_invariant [where I = "pass_le st"])
  show "pass_le st st" by (rule pass_le_refl)
next
  fix i s assume "i \<in> set xs" "pass_le st s"
  then show "\<exists>s'. body i s = Inr s' \<and> pass_le st s'"
    using assms [of i s] pass_le_trans by blast
qed

lemma naked_single_le:
  assumes "x < 9" "y < 9" "valid_val onlyVal"
  shows "\<exists>st'. naked_single L x y onlyVal st = Inr st' \<and> pass_le st st'"
proof -
  have row: "\<exists>st'. forE [0..<9]
               (\<lambda>cx st. if cx = x then Inr st
                  else eliminate_peer L ELIMINATION_BY_ROW y onlyVal (GPos cx y) st) st = Inr st' \<and> pass_le st st'" for st
    by (rule forE_pass_le) (use assms in \<open>auto simp add: pass_le_refl valid_pos_def intro!: eliminate_peer_le\<close>)
  have col: "\<exists>st'. forE [0..<9]
               (\<lambda>cy st. if cy = y then Inr st
                  else eliminate_peer L ELIMINATION_BY_COLUMN x onlyVal (GPos x cy) st) st = Inr st' \<and> pass_le st st'" for st
    by (rule forE_pass_le) (use assms in \<open>auto simp add: pass_le_refl valid_pos_def intro!: eliminate_peer_le\<close>)
  have chunk: "\<exists>st'. forE (chunk_cells (x div 3 * 3) (y div 3 * 3))
        (\<lambda>peer st. if getX peer = x \<and> getY peer = y then Inr st
           else eliminate_peer L ELIMINATION_BY_CHUNK (x div 3 + 3 * (y div 3)) onlyVal peer st) st = Inr st' \<and> pass_le st st'" for st
    by (rule forE_pass_le) (use assms valid_chunk_cells in \<open>auto simp add: pass_le_refl intro!: eliminate_peer_le\<close>)
  obtain st1 where 1: "forE [0..<9]
               (\<lambda>cx st. if cx = x then Inr st
                  else eliminate_peer L ELIMINATION_BY_ROW y onlyVal (GPos cx y) st) st = Inr st1" "pass_le st st1"
    using row by blast
  obtain st2 where 2: "forE [0..<9]
               (\<lambda>cy st. if cy = y then Inr st
                  else eliminate_peer L ELIMINATION_BY_COLUMN x onlyVal (GPos x cy) st) st1 = Inr st2" "pass_le st1 st2"
    using col by blast
  obtain st3 where 3: "forE (chunk_cells (x div 3 * 3) (y div 3 * 3))
        (\<lambda>peer st. if getX peer = x \<and> getY peer = y then Inr st
           else eliminate_peer L ELIMINATION_BY_CHUNK (x div 3 + 3 * (y div 3)) onlyVal peer st) st2 = Inr st3" "pass_le st2 st3"
    using chunk by blast
  have "naked_single L x y onlyVal st = Inr st3"
    unfolding naked_single_def Let_def by (simp add: 1 2 3)
  then show ?thesis using 1 2 3 pass_le_trans by blast
qed

lemma unique_in_loop:
  assumes "valid_val v"
  shows "forE peers
       (\<lambda>peer success. if getX peer = x \<and> getY peer = y then Inr success
          else bindE (isPossibleAt b peer v) (\<lambda>p. Inr (if p then False else success))) acc
     = Inr (acc \<and> (\<forall>peer\<in>set peers. (getX peer = x \<and> getY peer = y) \<or> \<not> cand b peer v))"
  using assms by (induction peers arbitrary: acc) (auto simp add: isPossibleAt_cand)

lemma unique_in_eq:
  assumes "valid_val v"
  shows "unique_in b x y v peers =
     Inr (\<forall>peer\<in>set peers. (getX peer = x \<and> getY peer = y) \<or> \<not> cand b peer v)"
  unfolding unique_in_def using unique_in_loop [OF assms, of peers x y b True] by simp

lemma unique_in_chunk_eq:
  assumes "valid_val v"
  shows "unique_in_chunk b x y v peers =
     Inr (\<forall>peer\<in>set peers. (getX peer = x \<and> getY peer = y) \<or> \<not> cand b peer v)"
  using assms by (induction peers) (auto simp add: isPossibleAt_cand)

lemma value_sure_eq:
  "value_sure L cause by' cnt selfPos v st =
     Inr \<lparr>board = makeSure (board st) selfPos v False, eliminations = eliminations st + (cnt - 1),
          obs = L cause selfPos v by' (obs st)\<rparr>"
  by (simp add: value_sure_def makeSureAt_eq)

text \<open>
  A firing of the hidden-single rule, seen from the state \<open>st0\<close> in which the cell was
  found to have two candidates or more: the cell keeps \<open>v\<close> only, so a flag of \<open>st0\<close> is gone.
\<close>

definition fires :: "'s pass \<Rightarrow> GPos \<Rightarrow> nat \<Rightarrow> 's pass \<Rightarrow> bool" where
  "fires st0 selfPos v st \<longleftrightarrow> pass_le st0 st \<and> cand (board st) selfPos v"

lemma fires_value_sure:
  assumes "valid_pos selfPos" "valid_val v" "2 \<le> length (candidates (board st0) selfPos)"
    and "fires st0 selfPos v st"
  shows "\<exists>st'. value_sure L cause by' cnt selfPos v st = Inr st' \<and> fires st0 selfPos v st'"
proof -
  let ?st' = "\<lparr>board = makeSure (board st) selfPos v False, eliminations = eliminations st + (cnt - 1),
          obs = L cause selfPos v by' (obs st)\<rparr>"
  have le: "pass_le st0 st" and c: "cand (board st) selfPos v"
    using assms(4) by (simp_all add: fires_def)
  have "\<not> set (candidates (board st0) selfPos) \<subseteq> {v}"
  proof
    assume "set (candidates (board st0) selfPos) \<subseteq> {v}"
    moreover have "distinct (candidates (board st0) selfPos)"
      by (simp add: candidates_def)
    ultimately have "length (candidates (board st0) selfPos) \<le> card {v}"
      by (metis card_mono distinct_card finite.emptyI finite.insertI)
    then show False using assms(3) by simp
  qed
  then obtain u where u: "u \<in> set (candidates (board st0) selfPos)" "u \<noteq> v" by auto
  then have u0: "(selfPos, u) \<in> flags (board st0)"
    using assms(1) by (simp add: candidates_iff flags_def)
  have u1: "(selfPos, u) \<notin> flags (makeSure (board st) selfPos v False)"
    using u assms(1) by (simp add: flags_makeSure_off)
  have sub: "flags (makeSure (board st) selfPos v False) \<subseteq> flags (board st0)"
    using le assms(1) by (auto simp add: pass_le_def flags_makeSure_off)
  have "pass_le st0 ?st'"
    unfolding pass_le_def using sub u0 u1 le by (auto simp add: pass_le_def)
  moreover have "cand (board ?st') selfPos v"
    using c assms(1,2) by (simp add: cand_makeSure)
  ultimately show ?thesis
    by (simp add: value_sure_eq fires_def)
qed

lemma fires_maybe:
  assumes "valid_pos selfPos" "valid_val v" "2 \<le> length (candidates (board st0) selfPos)"
    and "fires st0 selfPos v st"
  shows "\<exists>st'. (if c then value_sure L cause by' cnt selfPos v st else Inr st) = Inr st'
      \<and> fires st0 selfPos v st'"
  using fires_value_sure [OF assms] assms(4) by (cases c) simp_all

lemma hidden_single_value_le:
  assumes "valid_pos (GPos x y)" "valid_val v" "2 \<le> length (candidates (board st0) (GPos x y))"
    and "pass_le st0 st" and "candidates (board st) (GPos x y) \<noteq> []"
  shows "\<exists>st'. hidden_single_value L x y cnt v st = Inr st' \<and> pass_le st0 st' \<and>
      candidates (board st') (GPos x y) \<noteq> []"
proof (cases "cand (board st) (GPos x y) v")
  case False
  then show ?thesis
    using assms by (simp add: hidden_single_value_def isPossibleAt_cand)
next
  case True
  then have f0: "fires st0 (GPos x y) v st" using assms(4) by (simp add: fires_def)
  note fm = fires_maybe [OF assms(1,2,3)]
  let ?u1 = "\<forall>peer\<in>set (map (\<lambda>cx. GPos cx y) [0..<9]). (getX peer = x \<and> getY peer = y) \<or> \<not> cand (board st) peer v"
  obtain st1 where 1: "(if ?u1 then value_sure L VALUE_SURE_BY_ROW y cnt (GPos x y) v st else Inr st) = Inr st1"
    and f1: "fires st0 (GPos x y) v st1"
    using fm [OF f0] by blast
  let ?u2 = "\<forall>peer\<in>set (map (\<lambda>cy. GPos x cy) [0..<9]). (getX peer = x \<and> getY peer = y) \<or> \<not> cand (board st1) peer v"
  obtain st2 where 2: "(if ?u2 then value_sure L VALUE_SURE_BY_COLUMN x cnt (GPos x y) v st1 else Inr st1) = Inr st2"
    and f2: "fires st0 (GPos x y) v st2"
    using fm [OF f1] by blast
  let ?u3 = "\<forall>peer\<in>set (chunk_cells (x div 3 * 3) (y div 3 * 3)). (getX peer = x \<and> getY peer = y) \<or> \<not> cand (board st2) peer v"
  obtain st3 where 3: "(if ?u3 then value_sure L VALUE_SURE_BY_CHUNK (x div 3 + 3 * (y div 3)) cnt (GPos x y) v st2 else Inr st2) = Inr st3"
    and f3: "fires st0 (GPos x y) v st3"
    using fm [OF f2] by blast
  have "hidden_single_value L x y cnt v st = Inr st3"
    unfolding hidden_single_value_def Let_def
    by (simp only: isPossibleAt_cand [OF assms(2)] True bindE_Inr not_True_eq_False if_False
        unique_in_eq [OF assms(2)] unique_in_chunk_eq [OF assms(2)] 1 2 3)
  moreover have "candidates (board st3) (GPos x y) \<noteq> []"
    using f3 assms(2) candidates_iff [of v "board st3" "GPos x y"] by (auto simp add: fires_def)
  ultimately show ?thesis using f3 by (simp add: fires_def)
qed

lemma last_candidates_valid:
  "candidates b p \<noteq> [] \<Longrightarrow> valid_val (last (candidates b p))"
  using candidates_iff [of "last (candidates b p)" b p] by simp

lemma hidden_loop_le:
  assumes "valid_pos (GPos x y)" "2 \<le> length (candidates (board st0) (GPos x y))"
  shows "\<exists>st'. forE [1..<10] (hidden_single_value L x y cnt) st0 = Inr st' \<and>
      pass_le st0 st' \<and> candidates (board st') (GPos x y) \<noteq> []"
proof (rule forE_invariant
    [where I = "\<lambda>st. pass_le st0 st \<and> candidates (board st) (GPos x y) \<noteq> []"])
  show "pass_le st0 st0 \<and> candidates (board st0) (GPos x y) \<noteq> []"
    using assms(2) by (auto simp add: pass_le_refl)
next
  fix v st
  assume "v \<in> set [1..<10]" and "pass_le st0 st \<and> candidates (board st) (GPos x y) \<noteq> []"
  then show "\<exists>s'. hidden_single_value L x y cnt v st = Inr s' \<and>
      pass_le st0 s' \<and> candidates (board s') (GPos x y) \<noteq> []"
    using hidden_single_value_le [OF assms(1) _ assms(2), of v st L cnt]
    by (simp only: valid_val_upt) blast
qed

lemma simplify_cell_unfold:
  "simplify_cell L (GPos x y) st =
     (if length (candidates (board st) (GPos x y)) = 0
      then Inr (False, st\<lparr>obs := L NO_VALUE_POSSIBLE (GPos x y) 0 0 (obs st)\<rparr>)
      else bindE (if length (candidates (board st) (GPos x y)) = 1
                  then naked_single L x y (last (candidates (board st) (GPos x y))) st
                  else Inr st)
            (\<lambda>st1. if length (candidates (board st1) (GPos x y)) = 0
               then Inr (False, st1\<lparr>obs := L NO_VALUE_POSSIBLE (GPos x y) 0 0 (obs st1)\<rparr>)
               else if length (candidates (board st1) (GPos x y)) = 1 then Inr (True, st1)
               else bindE (forE [1..<10]
                       (hidden_single_value L x y (length (candidates (board st1) (GPos x y)))) st1)
                     (\<lambda>st. Inr (True, st))))"
  unfolding simplify_cell_def Let_def getCellInfoAt_eq bindE_Inr prod.case GPos.sel
  by (simp only: if_True simp_thms cong: if_cong)


text \<open>
  One cell of a pass: it returns, no flag is turned on, and a counter that has grown
  means a flag is gone; when the pass goes on, the cell has a candidate left.
\<close>

lemma simplify_cell_le:
  assumes "valid_pos selfPos"
  shows "\<exists>r st'. simplify_cell L selfPos st = Inr (r, st') \<and> pass_le st st' \<and>
      (r \<longrightarrow> candidates (board st') selfPos \<noteq> [])"
proof -
  obtain x y where p: "selfPos = GPos x y" by (cases selfPos)
  have xy: "x < 9" "y < 9" and vp: "valid_pos (GPos x y)"
    using assms by (simp_all add: p valid_pos_def)
  let ?cs = "candidates (board st) (GPos x y)"
  note cell = simplify_cell_unfold [of L x y st]
  show ?thesis
  proof (cases "length ?cs = 0")
    case True
    have "simplify_cell L (GPos x y) st =
        Inr (False, st\<lparr>obs := L NO_VALUE_POSSIBLE (GPos x y) 0 0 (obs st)\<rparr>)"
      by (simp only: cell True if_True simp_thms)
    moreover have "pass_le st (st\<lparr>obs := L NO_VALUE_POSSIBLE (GPos x y) 0 0 (obs st)\<rparr>)"
      by (simp add: pass_le_obs pass_le_refl)
    ultimately show ?thesis unfolding p by blast
  next
    case False
    let ?naked = "if length ?cs = 1 then naked_single L x y (last ?cs) st else Inr st"
    have "\<exists>st1. ?naked = Inr st1 \<and> pass_le st st1"
    proof (cases "length ?cs = 1")
      case True
      then have "valid_val (last ?cs)" by (intro last_candidates_valid) auto
      then show ?thesis using naked_single_le [OF xy, of "last ?cs" L st] True by simp
    next
      case False
      then show ?thesis by (simp add: pass_le_refl)
    qed
    then obtain st1 where 1: "?naked = Inr st1" and le1: "pass_le st st1" by blast
    let ?cs1 = "candidates (board st1) (GPos x y)"
    have cell1: "simplify_cell L (GPos x y) st =
        (if length ?cs1 = 0
          then Inr (False, st1\<lparr>obs := L NO_VALUE_POSSIBLE (GPos x y) 0 0 (obs st1)\<rparr>)
         else if length ?cs1 = 1 then Inr (True, st1)
         else bindE (forE [1..<10] (hidden_single_value L x y (length ?cs1)) st1)
               (\<lambda>st. Inr (True, st)))"
      by (simp only: cell False if_False 1 bindE_Inr)
    consider "length ?cs1 = 0" | "length ?cs1 = 1" | "2 \<le> length ?cs1" by linarith
    then show ?thesis
    proof cases
      case 1
      have "simplify_cell L (GPos x y) st =
          Inr (False, st1\<lparr>obs := L NO_VALUE_POSSIBLE (GPos x y) 0 0 (obs st1)\<rparr>)"
        by (simp only: cell1 1 if_True simp_thms)
      moreover have "pass_le st (st1\<lparr>obs := L NO_VALUE_POSSIBLE (GPos x y) 0 0 (obs st1)\<rparr>)"
        using le1 by (simp add: pass_le_obs)
      ultimately show ?thesis unfolding p by blast
    next
      case 2
      then have ne: "?cs1 \<noteq> []" by auto
      have "simplify_cell L (GPos x y) st = Inr (True, st1)"
        using 2 by (simp only: cell1) simp
      then show ?thesis unfolding p using le1 ne by blast
    next
      case 3
      obtain st2 where 2: "forE [1..<10] (hidden_single_value L x y (length ?cs1)) st1 = Inr st2"
        and le2: "pass_le st1 st2" and ne: "candidates (board st2) (GPos x y) \<noteq> []"
        using hidden_loop_le [OF vp 3] by blast
      have n0: "length ?cs1 \<noteq> 0" "length ?cs1 \<noteq> 1" using 3 by auto
      have "simplify_cell L (GPos x y) st = Inr (True, st2)"
        by (simp only: cell1 n0 if_False 2 bindE_Inr)
      moreover have "pass_le st st2" using le1 le2 by (rule pass_le_trans)
      ultimately show ?thesis unfolding p using ne by blast
    qed
  qed
qed

lemma simplify_cells_le:
  assumes "\<forall>p\<in>set cells. valid_pos p"
  shows "\<exists>r st'. simplify_cells L cells st = Inr (r, st') \<and> pass_le st st'"
  using assms
proof (induction cells arbitrary: st)
  case Nil
  then show ?case by (auto simp add: pass_le_refl)
next
  case (Cons p cells)
  obtain r st1 where 1: "simplify_cell L p st = Inr (r, st1)" and le1: "pass_le st st1"
    using simplify_cell_le [of p L st] Cons.prems by auto
  show ?case
  proof (cases r)
    case True
    obtain r' st2 where 2: "simplify_cells L cells st1 = Inr (r', st2)" and le2: "pass_le st1 st2"
      using Cons.IH [of st1] Cons.prems by auto
    show ?thesis using 1 2 True pass_le_trans [OF le1 le2] by simp
  next
    case False
    then show ?thesis using 1 le1 by auto
  qed
qed

lemma simplify_cells_append:
  "simplify_cells L (xs @ ys) st =
     bindE (simplify_cells L xs st)
       (\<lambda>(go_on, st). if go_on then simplify_cells L ys st else Inr (False, st))"
proof (induction xs arbitrary: st)
  case Nil
  then show ?case by simp
next
  case (Cons p xs)
  show ?case
  proof (cases "simplify_cell L p st")
    case (Inl e)
    then show ?thesis by simp
  next
    case (Inr a)
    then show ?thesis using Cons.IH by (cases a) simp
  qed
qed

lemma all_cells_last: "all_cells = butlast all_cells @ [GPos 8 8]"
proof -
  have 9: "[0..<8] @ [8::nat] = [0..<9]"
    using upt_Suc_append [of 0 8] by simp
  have "all_cells = concat (map (\<lambda>y. map (\<lambda>x. GPos x y) ([0..<8] @ [8])) ([0..<8] @ [8]))"
    by (simp only: all_cells_def 9)
  also have "\<dots> = (concat (map (\<lambda>y. map (\<lambda>x. GPos x y) ([0..<8] @ [8])) [0..<8])
      @ map (\<lambda>x. GPos x 8) [0..<8]) @ [GPos 8 8]"
    by (simp only: map_append concat_append list.map concat.simps append_Nil2 append_assoc)
  finally show ?thesis by (metis butlast_snoc)
qed

lemma simplify_cells_last:
  assumes "\<forall>p\<in>set cells. valid_pos p" "valid_pos q"
    and "simplify_cells L (cells @ [q]) st = Inr (True, st')"
  shows "candidates (board st') q \<noteq> []"
proof -
  obtain r st1 where 1: "simplify_cells L cells st = Inr (r, st1)"
    using simplify_cells_le [OF assms(1), of L st] by blast
  obtain r2 st2 where 2: "simplify_cell L q st1 = Inr (r2, st2)"
    and ne: "r2 \<longrightarrow> candidates (board st2) q \<noteq> []"
    using simplify_cell_le [OF assms(2), of L st1] by blast
  show ?thesis
    using assms(3) 1 2 ne by (cases r; cases r2) (simp_all add: simplify_cells_append)
qed

text \<open>The pass as a whole.\<close>

lemma simplify_le:
  "\<exists>ok e b' s'. simplify L b s = Inr (ok, e, b', s') \<and> flags b' \<subseteq> flags b \<and>
     (0 < e \<longrightarrow> nflags b' < nflags b) \<and> (ok \<longrightarrow> 0 < nflags b')"
proof -
  let ?st = "\<lparr>board = b, eliminations = 0, obs = s\<rparr>"
  have v: "\<forall>p\<in>set all_cells. valid_pos p" by (simp add: set_all_cells)
  obtain r st' where 1: "simplify_cells L all_cells ?st = Inr (r, st')" and le: "pass_le ?st st'"
    using simplify_cells_le [OF v, of L ?st] by blast
  have sub: "flags (board st') \<subseteq> flags b" using le by (simp add: pass_le_def)
  have less: "nflags (board st') < nflags b" if "0 < eliminations st'"
    using that le nflags_less [of "board st'" b] by (simp add: pass_le_def)
  have pos: "0 < nflags (board st')" if r
  proof -
    have vb: "\<forall>p\<in>set (butlast all_cells). valid_pos p"
      using v by (meson in_set_butlastD)
    have "simplify_cells L (butlast all_cells @ [GPos 8 8]) ?st = Inr (True, st')"
      using 1 that all_cells_last by simp
    then have "candidates (board st') (GPos 8 8) \<noteq> []"
      by (rule simplify_cells_last [OF vb, rotated]) (simp add: valid_pos_def)
    then obtain u where "u \<in> set (candidates (board st') (GPos 8 8))" by fastforce
    then have "(GPos 8 8, u) \<in> flags (board st')"
      by (simp add: candidates_iff flags_def valid_pos_def)
    then have "flags (board st') \<noteq> {}" by blast
    then show ?thesis by (simp add: nflags_def card_gt_0_iff finite_flags)
  qed
  show ?thesis
    using 1 sub less pos by (simp add: simplify_def)
qed

section \<open>Simplification to the fixpoint\<close>

lemma bindE_cong [fundef_cong]:
  "m = m' \<Longrightarrow> (\<And>a. m' = Inr a \<Longrightarrow> f a = f' a) \<Longrightarrow> bindE m f = bindE m' f'"
  by (cases m') simp_all

lemma simplify_decreases:
  assumes "simplify L b s = Inr (ok, e, b', s')" "e \<noteq> 0"
  shows "nflags b' < nflags b"
  using simplify_le [of L b s] assms by auto

text \<open>
  \<^verbatim>\<open>simplifyToTheEnd\<close>. The loop \<^verbatim>\<open>while (true)\<close> with its locals
  \<open>totalEliminations\<close> and \<open>index\<close>; it ends when a pass reports a contradiction
  or eliminates nothing. The list \<open>passes\<close> is not in the source: it records the count
  reported by each call of \<^verbatim>\<open>simplify\<close>, in order, so that the calls can be counted.
  The result is (returned \<^verbatim>\<open>bool\<close>, \<open>totalEliminations\<close>, board, obs, passes).
\<close>

type_synonym 's simplifyListener = "nat \<Rightarrow> nat \<Rightarrow> nat \<Rightarrow> 's \<Rightarrow> 's"

function simplifyToTheEnd_loop ::
  "'s simplifyListener \<Rightarrow> 's eliminateListener \<Rightarrow> nat \<Rightarrow> nat \<Rightarrow> nat list \<Rightarrow> SudokuBoard \<Rightarrow> 's
     \<Rightarrow> error + (bool \<times> nat \<times> SudokuBoard \<times> 's \<times> nat list)" where
  "simplifyToTheEnd_loop simplifyListener eliminateListener totalEliminations index passes b s =
     bindE (simplify eliminateListener b s) (\<lambda>(ok, eliminated, b', s').
       if \<not> ok then
         (let totalEliminations = totalEliminations + eliminated
          in Inr (False, totalEliminations, b',
                  simplifyListener index eliminated totalEliminations s', passes @ [eliminated]))
       else if eliminated = 0 then Inr (True, totalEliminations, b', s', passes @ [eliminated])
       else
         (let totalEliminations = totalEliminations + eliminated
          in simplifyToTheEnd_loop simplifyListener eliminateListener totalEliminations (index + 1)
               (passes @ [eliminated]) b'
               (simplifyListener index eliminated totalEliminations s')))"
  by pat_completeness auto
termination
proof (relation "measure (\<lambda>(sL, eL, total, index, passes, b, s). nflags b)")
  show "wf (measure (\<lambda>(sL, eL, total, index, passes, b, s). nflags b))" by simp
next
  fix simplifyListener :: "'s simplifyListener" and eliminateListener :: "'s eliminateListener"
    and totalEliminations index :: nat and passes :: "nat list" and b s a ok x2 eliminated x2a b' s' xa
  assume "simplify eliminateListener b s = Inr a" "(ok, x2) = a" "(eliminated, x2a) = x2"
    "(b', s') = x2a" "\<not> \<not> ok" "eliminated \<noteq> 0" "xa = totalEliminations + eliminated"
  then have "simplify eliminateListener b s = Inr (ok, eliminated, b', s')" by auto
  then have "nflags b' < nflags b" using \<open>eliminated \<noteq> 0\<close> by (rule simplify_decreases)
  then show "((simplifyListener, eliminateListener, xa, index + 1, passes @ [eliminated], b',
         simplifyListener index eliminated xa s'),
        simplifyListener, eliminateListener, totalEliminations, index, passes, b, s)
       \<in> measure (\<lambda>(sL, eL, total, index, passes, b, s). nflags b)"
    by simp
qed

definition simplifyToTheEnd ::
  "'s simplifyListener \<Rightarrow> 's eliminateListener \<Rightarrow> SudokuBoard \<Rightarrow> 's
     \<Rightarrow> error + (bool \<times> nat \<times> SudokuBoard \<times> 's \<times> nat list)" where
  "simplifyToTheEnd simplifyListener eliminateListener b s =
     simplifyToTheEnd_loop simplifyListener eliminateListener 0 0 [] b s"

subsection \<open>Two runs of a pass with different listeners\<close>

definition rel_pass :: "('s \<Rightarrow> 't \<Rightarrow> bool) \<Rightarrow> 's pass \<Rightarrow> 't pass \<Rightarrow> bool" where
  "rel_pass Q st st' \<longleftrightarrow>
     board st = board st' \<and> eliminations st = eliminations st' \<and> Q (obs st) (obs st')"

definition rel_listener ::
  "('s \<Rightarrow> 't \<Rightarrow> bool) \<Rightarrow> 's eliminateListener \<Rightarrow> 't eliminateListener \<Rightarrow> bool" where
  "rel_listener Q L L' \<longleftrightarrow> (\<forall>c p v w s s'. Q s s' \<longrightarrow> Q (L c p v w s) (L' c p v w s'))"

lemma bindE_rel:
  assumes "rel_sum (=) A m m'"
    and "\<And>a a'. A a a' \<Longrightarrow> rel_sum (=) B (f a) (f' a')"
  shows "rel_sum (=) B (bindE m f) (bindE m' f')"
  using assms by (cases m; cases m') auto

lemma bindE_rel_same:
  assumes "\<And>a. m = Inr a \<Longrightarrow> rel_sum (=) B (f a) (f' a)"
  shows "rel_sum (=) B (bindE m f) (bindE m f')"
  using assms by (cases m) auto

lemma forE_rel:
  assumes "A s s'"
    and "\<And>i s s'. i \<in> set xs \<Longrightarrow> A s s' \<Longrightarrow> rel_sum (=) A (body i s) (body' i s')"
  shows "rel_sum (=) A (forE xs body s) (forE xs body' s')"
  using assms
proof (induction xs arbitrary: s s')
  case Nil
  then show ?case by simp
next
  case (Cons i xs)
  show ?case
    unfolding forE.simps
  proof (rule bindE_rel)
    show "rel_sum (=) A (body i s) (body' i s')"
      using Cons.prems by simp
  next
    fix a a' assume "A a a'"
    then show "rel_sum (=) A (forE xs body a) (forE xs body' a')"
      using Cons.prems(2) by (intro Cons.IH) simp_all
  qed
qed

lemma Inr_rel: "A a a' \<Longrightarrow> rel_sum (=) A (Inr a) (Inr a')"
  by simp

lemma eliminate_peer_rel:
  assumes "rel_listener Q L L'" "rel_pass Q st st'"
  shows "rel_sum (=) (rel_pass Q) (eliminate_peer L cause w onlyVal peer st)
           (eliminate_peer L' cause w onlyVal peer st')"
proof -
  have b: "board st' = board st" using assms(2) by (simp add: rel_pass_def)
  show ?thesis
    unfolding eliminate_peer_def b setPossibleAt_then_def
    using assms
    by (intro bindE_rel_same)
      (auto simp add: rel_pass_def rel_listener_def split: prod.splits sum.splits)
qed

lemma naked_single_rel:
  assumes "rel_listener Q L L'" "rel_pass Q st st'"
  shows "rel_sum (=) (rel_pass Q) (naked_single L x y onlyVal st) (naked_single L' x y onlyVal st')"
  unfolding naked_single_def Let_def
  by (intro bindE_rel [where A = "rel_pass Q"] forE_rel assms(2))
    (auto intro: eliminate_peer_rel [OF assms(1)])

lemma value_sure_rel:
  assumes "rel_listener Q L L'" "rel_pass Q st st'"
  shows "rel_sum (=) (rel_pass Q) (value_sure L cause w cnt selfPos v st)
           (value_sure L' cause w cnt selfPos v st')"
  using assms
  by (simp add: value_sure_eq rel_pass_def rel_listener_def)

lemma maybe_sure_rel:
  assumes "rel_listener Q L L'" "rel_pass Q st st'"
  shows "rel_sum (=) (rel_pass Q)
     (if c then value_sure L cause w cnt selfPos v st else Inr st)
     (if c then value_sure L' cause w cnt selfPos v st' else Inr st')"
  using value_sure_rel [OF assms] assms(2) by simp

lemma hidden_single_value_rel:
  assumes "rel_listener Q L L'" "rel_pass Q st st'"
  shows "rel_sum (=) (rel_pass Q) (hidden_single_value L x y cnt v st)
           (hidden_single_value L' x y cnt v st')"
proof -
  have b: "board st' = board st" using assms(2) by (simp add: rel_pass_def)
  have eqb: "board s' = board s" if "rel_pass Q s s'" for s s'
    using that by (simp add: rel_pass_def)
  show ?thesis
    unfolding hidden_single_value_def Let_def b
  proof (intro bindE_rel_same)
    fix p assume "isPossibleAt (board st) (GPos x y) v = Inr p"
    show "rel_sum (=) (rel_pass Q)
        (if \<not> p then Inr st
         else bindE (unique_in (board st) x y v (map (\<lambda>cx. GPos cx y) [0..<9]))
           (\<lambda>success. bindE (if success then value_sure L VALUE_SURE_BY_ROW y cnt (GPos x y) v st else Inr st)
           (\<lambda>st. bindE (unique_in (board st) x y v (map (GPos x) [0..<9]))
           (\<lambda>success. bindE (if success then value_sure L VALUE_SURE_BY_COLUMN x cnt (GPos x y) v st else Inr st)
           (\<lambda>st. bindE (unique_in_chunk (board st) x y v (chunk_cells (x div 3 * 3) (y div 3 * 3)))
           (\<lambda>success. if success then value_sure L VALUE_SURE_BY_CHUNK (x div 3 + 3 * (y div 3)) cnt (GPos x y) v st
                       else Inr st))))))
        (if \<not> p then Inr st'
         else bindE (unique_in (board st) x y v (map (\<lambda>cx. GPos cx y) [0..<9]))
           (\<lambda>success. bindE (if success then value_sure L' VALUE_SURE_BY_ROW y cnt (GPos x y) v st' else Inr st')
           (\<lambda>st. bindE (unique_in (board st) x y v (map (GPos x) [0..<9]))
           (\<lambda>success. bindE (if success then value_sure L' VALUE_SURE_BY_COLUMN x cnt (GPos x y) v st else Inr st)
           (\<lambda>st. bindE (unique_in_chunk (board st) x y v (chunk_cells (x div 3 * 3) (y div 3 * 3)))
           (\<lambda>success. if success then value_sure L' VALUE_SURE_BY_CHUNK (x div 3 + 3 * (y div 3)) cnt (GPos x y) v st
                       else Inr st))))))"
    proof (cases p)
      case False
      then show ?thesis using assms(2) by simp
    next
      case True
      have "rel_sum (=) (rel_pass Q)
         (bindE (unique_in (board st) x y v (map (\<lambda>cx. GPos cx y) [0..<9]))
           (\<lambda>success. bindE (if success then value_sure L VALUE_SURE_BY_ROW y cnt (GPos x y) v st else Inr st)
           (\<lambda>st. bindE (unique_in (board st) x y v (map (GPos x) [0..<9]))
           (\<lambda>success. bindE (if success then value_sure L VALUE_SURE_BY_COLUMN x cnt (GPos x y) v st else Inr st)
           (\<lambda>st. bindE (unique_in_chunk (board st) x y v (chunk_cells (x div 3 * 3) (y div 3 * 3)))
           (\<lambda>success. if success then value_sure L VALUE_SURE_BY_CHUNK (x div 3 + 3 * (y div 3)) cnt (GPos x y) v st
                       else Inr st))))))
         (bindE (unique_in (board st) x y v (map (\<lambda>cx. GPos cx y) [0..<9]))
           (\<lambda>success. bindE (if success then value_sure L' VALUE_SURE_BY_ROW y cnt (GPos x y) v st' else Inr st')
           (\<lambda>st. bindE (unique_in (board st) x y v (map (GPos x) [0..<9]))
           (\<lambda>success. bindE (if success then value_sure L' VALUE_SURE_BY_COLUMN x cnt (GPos x y) v st else Inr st)
           (\<lambda>st. bindE (unique_in_chunk (board st) x y v (chunk_cells (x div 3 * 3) (y div 3 * 3)))
           (\<lambda>success. if success then value_sure L' VALUE_SURE_BY_CHUNK (x div 3 + 3 * (y div 3)) cnt (GPos x y) v st
                       else Inr st))))))"
        apply (rule bindE_rel_same)
        apply (rule bindE_rel [where A = "rel_pass Q"])
         apply (rule maybe_sure_rel [OF assms])
        subgoal for s1 a a'
          apply (simp only: eqb [of a a'])
          apply (rule bindE_rel_same)
          apply (rule bindE_rel [where A = "rel_pass Q"])
           apply (rule maybe_sure_rel [OF assms(1)], assumption)
          subgoal for s2 c c'
            apply (simp only: eqb [of c c'])
            apply (rule bindE_rel_same)
            apply (rule maybe_sure_rel [OF assms(1)], assumption)
            done
          done
        done
      then show ?thesis using True by simp
    qed
  qed
qed

definition rel_cell :: "('s \<Rightarrow> 't \<Rightarrow> bool) \<Rightarrow> bool \<times> 's pass \<Rightarrow> bool \<times> 't pass \<Rightarrow> bool" where
  "rel_cell Q r r' \<longleftrightarrow> fst r = fst r' \<and> rel_pass Q (snd r) (snd r')"

lemma rel_pass_obs:
  "rel_listener Q L L' \<Longrightarrow> rel_pass Q st st' \<Longrightarrow>
   rel_pass Q (st\<lparr>obs := L c p v w (obs st)\<rparr>) (st'\<lparr>obs := L' c p v w (obs st')\<rparr>)"
  by (simp add: rel_pass_def rel_listener_def)

lemma simplify_cell_rest_rel:
  assumes "rel_listener Q L L'" "rel_pass Q st1 st1'"
  shows "rel_sum (=) (rel_cell Q)
     (if length (candidates (board st1) (GPos x y)) = 0
               then Inr (False, st1\<lparr>obs := L NO_VALUE_POSSIBLE (GPos x y) 0 0 (obs st1)\<rparr>)
               else if length (candidates (board st1) (GPos x y)) = 1 then Inr (True, st1)
               else bindE (forE [1..<10]
                       (hidden_single_value L x y (length (candidates (board st1) (GPos x y)))) st1)
                     (\<lambda>st. Inr (True, st)))
     (if length (candidates (board st1') (GPos x y)) = 0
               then Inr (False, st1'\<lparr>obs := L' NO_VALUE_POSSIBLE (GPos x y) 0 0 (obs st1')\<rparr>)
               else if length (candidates (board st1') (GPos x y)) = 1 then Inr (True, st1')
               else bindE (forE [1..<10]
                       (hidden_single_value L' x y (length (candidates (board st1') (GPos x y)))) st1')
                     (\<lambda>st. Inr (True, st)))"
proof -
  have b: "board st1' = board st1" using assms(2) by (simp add: rel_pass_def)
  let ?n = "length (candidates (board st1) (GPos x y))"
  consider "?n = 0" | "?n = 1" | "?n \<noteq> 0" "?n \<noteq> 1" by blast
  then show ?thesis
  proof cases
    case 1
    then show ?thesis
      using rel_pass_obs [OF assms] by (simp add: b rel_cell_def)
  next
    case 2
    then show ?thesis using assms(2) by (simp add: b rel_cell_def)
  next
    case 3
    have "rel_sum (=) (rel_cell Q)
        (bindE (forE [1..<10] (hidden_single_value L x y ?n) st1) (\<lambda>st. Inr (True, st)))
        (bindE (forE [1..<10] (hidden_single_value L' x y ?n) st1') (\<lambda>st. Inr (True, st)))"
      by (intro bindE_rel [where A = "rel_pass Q"] forE_rel assms(2)
          hidden_single_value_rel [OF assms(1)])
        (simp_all add: rel_cell_def)
    then show ?thesis using 3 by (simp only: b if_False)
  qed
qed

lemma simplify_cell_rel:
  assumes "rel_listener Q L L'" "rel_pass Q st st'"
  shows "rel_sum (=) (rel_cell Q) (simplify_cell L selfPos st) (simplify_cell L' selfPos st')"
proof -
  obtain x y where p: "selfPos = GPos x y" by (cases selfPos)
  have b: "board st' = board st" using assms(2) by (simp add: rel_pass_def)
  let ?cs = "candidates (board st) (GPos x y)"
  show ?thesis
  proof (cases "length ?cs = 0")
    case True
    then show ?thesis
      unfolding p simplify_cell_unfold b
      using rel_pass_obs [OF assms] by (simp add: rel_cell_def)
  next
    case False
    have naked: "rel_sum (=) (rel_pass Q)
        (if length ?cs = 1 then naked_single L x y (last ?cs) st else Inr st)
        (if length ?cs = 1 then naked_single L' x y (last ?cs) st' else Inr st')"
      using naked_single_rel [OF assms] assms(2) by simp
    show ?thesis
      unfolding p simplify_cell_unfold b
      apply (simp only: False if_False)
      apply (rule bindE_rel [OF naked])
      apply (rule simplify_cell_rest_rel [OF assms(1)])
      apply assumption
      done
  qed
qed

lemma simplify_cells_rel:
  assumes "rel_listener Q L L'" "rel_pass Q st st'"
  shows "rel_sum (=) (rel_cell Q) (simplify_cells L cells st) (simplify_cells L' cells st')"
  using assms(2)
proof (induction cells arbitrary: st st')
  case Nil
  then show ?case by (simp add: rel_cell_def)
next
  case (Cons p cells)
  show ?case
    unfolding simplify_cells.simps
  proof (rule bindE_rel [OF simplify_cell_rel [OF assms(1) Cons.prems]])
    fix a :: "bool \<times> 'a pass" and a' :: "bool \<times> 'b pass"
    assume r: "rel_cell Q a a'"
    obtain g s where a: "a = (g, s)" by (cases a)
    obtain g' s' where a': "a' = (g', s')" by (cases a')
    have g: "g' = g" and s: "rel_pass Q s s'" using r by (simp_all add: a a' rel_cell_def)
    show "rel_sum (=) (rel_cell Q)
        (case a of (go_on, st) \<Rightarrow> if go_on then simplify_cells L cells st else Inr (False, st))
        (case a' of (go_on, st) \<Rightarrow> if go_on then simplify_cells L' cells st else Inr (False, st))"
    proof (cases g)
      case True
      then show ?thesis using Cons.IH [OF s] by (simp add: a a' g)
    next
      case False
      then show ?thesis using s by (simp add: a a' g rel_cell_def)
    qed
  qed
qed

lemma simplify_rel:
  assumes "rel_listener Q L L'" "Q s s'"
  shows "rel_sum (=) (\<lambda>(ok, e, b, z) (ok', e', b', z'). ok = ok' \<and> e = e' \<and> b = b' \<and> Q z z')
     (simplify L b s) (simplify L' b s')"
  unfolding simplify_def
  by (rule bindE_rel [OF simplify_cells_rel [OF assms(1)]])
     (auto simp add: rel_pass_def rel_cell_def assms(2))

declare simplifyToTheEnd_loop.simps [simp del]

lemma simplifyToTheEnd_loop_step:
  assumes "simplify eL b s = Inr (ok, e, b', s')"
  shows "simplifyToTheEnd_loop sL eL t i ps b s =
     (if \<not> ok then Inr (False, t + e, b', sL i e (t + e) s', ps @ [e])
      else if e = 0 then Inr (True, t, b', s', ps @ [e])
      else simplifyToTheEnd_loop sL eL (t + e) (i + 1) (ps @ [e]) b' (sL i e (t + e) s'))"
  by (subst simplifyToTheEnd_loop.simps) (simp add: assms Let_def)

text \<open>
  The loop returns; \<open>ps\<close> are the counts of the passes it has made, one for each call of
  \<^verbatim>\<open>simplify\<close>.
\<close>

lemma simplifyToTheEnd_loop_result:
  "\<exists>ok total b' s' ps.
     simplifyToTheEnd_loop sL eL t i passes b s = Inr (ok, total, b', s', passes @ ps) \<and>
     ps \<noteq> [] \<and> length ps \<le> max 1 (nflags b) \<and> flags b' \<subseteq> flags b \<and>
     total = t + sum_list ps \<and> (ok \<longrightarrow> last ps = 0) \<and> (\<forall>j. Suc j < length ps \<longrightarrow> ps ! j \<noteq> 0)"
proof (induction sL eL t i passes b s rule: simplifyToTheEnd_loop.induct)
  case (1 sL eL t i passes b s)
  obtain ok e b' s' where simp: "simplify eL b s = Inr (ok, e, b', s')"
    and sub: "flags b' \<subseteq> flags b" and dec: "0 < e \<longrightarrow> nflags b' < nflags b"
    and pos: "ok \<longrightarrow> 0 < nflags b'"
    using simplify_le [of eL b s] by blast
  note step = simplifyToTheEnd_loop_step [OF simp, of sL t i passes]
  show ?case
  proof (cases "ok \<and> e \<noteq> 0")
    case False
    then have "simplifyToTheEnd_loop sL eL t i passes b s =
        Inr (ok, (if ok then t else t + e), b', (if ok then s' else sL i e (t + e) s'), passes @ [e])"
      using step by auto
    moreover have "ok \<longrightarrow> e = 0" using False by simp
    ultimately have "simplifyToTheEnd_loop sL eL t i passes b s =
        Inr (ok, (if ok then t else t + e), b', (if ok then s' else sL i e (t + e) s'), passes @ [e]) \<and>
      [e] \<noteq> [] \<and> length [e] \<le> max 1 (nflags b) \<and> flags b' \<subseteq> flags b \<and>
      (if ok then t else t + e) = t + sum_list [e] \<and> (ok \<longrightarrow> last [e] = 0) \<and>
      (\<forall>j. Suc j < length [e] \<longrightarrow> [e] ! j \<noteq> 0)"
      using sub by simp
    then show ?thesis by blast
  next
    case True
    then have ok: ok and e: "e \<noteq> 0" by simp_all
    obtain ok2 total b2 s2 ps where
      rec: "simplifyToTheEnd_loop sL eL (t + e) (i + 1) (passes @ [e]) b' (sL i e (t + e) s') =
          Inr (ok2, total, b2, s2, (passes @ [e]) @ ps)"
      and ne: "ps \<noteq> []" and len: "length ps \<le> max 1 (nflags b')" and sub2: "flags b2 \<subseteq> flags b'"
      and tot: "total = (t + e) + sum_list ps" and fx: "ok2 \<longrightarrow> last ps = 0"
      and nz: "\<forall>j. Suc j < length ps \<longrightarrow> ps ! j \<noteq> 0"
      using "1.IH" [OF simp refl refl refl _ e refl] ok by auto
    have "simplifyToTheEnd_loop sL eL t i passes b s = Inr (ok2, total, b2, s2, passes @ (e # ps))"
      using step ok e rec by simp
    moreover have "length (e # ps) \<le> max 1 (nflags b)"
      using len pos dec ok e by auto
    moreover have "\<forall>j. Suc j < length (e # ps) \<longrightarrow> (e # ps) ! j \<noteq> 0"
      using nz e by (auto simp add: nth_Cons split: nat.splits)
    ultimately have "simplifyToTheEnd_loop sL eL t i passes b s = Inr (ok2, total, b2, s2, passes @ (e # ps)) \<and>
      e # ps \<noteq> [] \<and> length (e # ps) \<le> max 1 (nflags b) \<and> flags b2 \<subseteq> flags b \<and>
      total = t + sum_list (e # ps) \<and> (ok2 \<longrightarrow> last (e # ps) = 0) \<and>
      (\<forall>j. Suc j < length (e # ps) \<longrightarrow> (e # ps) ! j \<noteq> 0)"
      using ne sub sub2 tot fx by auto
    then show ?thesis by blast
  qed
qed

definition rel_listener3 :: "('s \<Rightarrow> 't \<Rightarrow> bool) \<Rightarrow> 's simplifyListener \<Rightarrow> 't simplifyListener \<Rightarrow> bool" where
  "rel_listener3 Q sL sL' \<longleftrightarrow> (\<forall>i e t s s'. Q s s' \<longrightarrow> Q (sL i e t s) (sL' i e t s'))"

definition rel_fix :: "('s \<Rightarrow> 't \<Rightarrow> bool) \<Rightarrow>
    bool \<times> nat \<times> SudokuBoard \<times> 's \<times> nat list \<Rightarrow> bool \<times> nat \<times> SudokuBoard \<times> 't \<times> nat list \<Rightarrow> bool" where
  "rel_fix Q r r' \<longleftrightarrow>
     (case (r, r') of ((ok, t, b, z, ps), (ok', t', b', z', ps')) \<Rightarrow>
        ok = ok' \<and> t = t' \<and> b = b' \<and> ps = ps' \<and> Q z z')"

lemma simplifyToTheEnd_loop_rel:
  assumes "rel_listener3 Q sL sL'" "rel_listener Q eL eL'" "Q s s'"
  shows "rel_sum (=) (rel_fix Q) (simplifyToTheEnd_loop sL eL t i passes b s)
           (simplifyToTheEnd_loop sL' eL' t i passes b s')"
  using assms
proof (induction sL eL t i passes b s arbitrary: s' rule: simplifyToTheEnd_loop.induct)
  case (1 sL eL t i passes b s)
  obtain ok e b1 s1 where simp: "simplify eL b s = Inr (ok, e, b1, s1)"
    using simplify_le [of eL b s] by blast
  obtain ok' e' b1' s1' where simp': "simplify eL' b s' = Inr (ok', e', b1', s1')"
    using simplify_le [of eL' b s'] by blast
  have "ok' = ok \<and> e' = e \<and> b1' = b1 \<and> Q s1 s1'"
    using simplify_rel [OF "1.prems"(2,3), of b] simp simp' by simp
  then have eq: "ok' = ok" "e' = e" "b1' = b1" and q1: "Q s1 s1'" by simp_all
  have q2: "Q (sL i e (t + e) s1) (sL' i e (t + e) s1')"
    using q1 "1.prems"(1) by (simp add: rel_listener3_def)
  note step = simplifyToTheEnd_loop_step [OF simp, of sL t i passes]
  note step' = simplifyToTheEnd_loop_step [OF simp', of sL' t i passes]
  show ?case
  proof (cases "ok \<and> e \<noteq> 0")
    case False
    then show ?thesis
      using step step' eq q1 q2 by (auto simp add: rel_fix_def)
  next
    case True
    then have ok: ok and e: "e \<noteq> 0" by simp_all
    have "rel_sum (=) (rel_fix Q)
        (simplifyToTheEnd_loop sL eL (t + e) (i + 1) (passes @ [e]) b1 (sL i e (t + e) s1))
        (simplifyToTheEnd_loop sL' eL' (t + e) (i + 1) (passes @ [e]) b1 (sL' i e (t + e) s1'))"
      using "1.IH" [OF simp refl refl refl _ e refl "1.prems"(1,2) q2] ok by simp
    then show ?thesis
      using step step' eq ok e by simp
  qed
qed

section \<open>Concrete boards\<close>

subsection \<open>Boards written as tables\<close>

text \<open>
  A board given by a table of its flags: \<open>t ! y ! x ! (v - 1)\<close> is the flag of the cell
  \<open>(x, y)\<close> and the value \<open>v\<close>. The 39 bits of the last word that belong to no cell are
  1, as the default constructor leaves them.
\<close>

definition tbit :: "bool list list list \<Rightarrow> nat \<Rightarrow> bool" where
  "tbit t n = (if n < 729 then t ! (n div 81) ! (n div 9 mod 9) ! (n mod 9) else True)"

definition tboard :: "bool list list list \<Rightarrow> SudokuBoard" where
  "tboard t = \<lparr>bitset = (\<lambda>i. horner_sum of_bool 2 (map (\<lambda>j. tbit t (64 * i + j)) [0..<64]))\<rparr>"

lemma bit_tboard: "bit (bitset (tboard t) i) j \<longleftrightarrow> j < 64 \<and> tbit t (64 * i + j)"
  by (auto simp add: tboard_def bit_horner_sum_bit_word_iff)

lemma cand_tboard_index: "cand (tboard t) p v = tbit t (flag_index p v)"
  by (simp add: cand_def bit_tboard)

lemma flag_index_GPos:
  assumes "x < 9" "y < 9" "valid_val v"
  shows "flag_index (GPos x y) v < 729"
    "flag_index (GPos x y) v div 81 = y"
    "flag_index (GPos x y) v div 9 mod 9 = x"
    "flag_index (GPos x y) v mod 9 = v - 1"
proof -
  have v: "v - 1 < 9" using assms(3) by (auto simp add: valid_val_def)
  have e: "flag_index (GPos x y) v = 81 * y + (9 * x + (v - 1))"
    by (simp add: flag_index_eq)
  show "flag_index (GPos x y) v < 729" using assms(1,2) v unfolding e by linarith
  show "flag_index (GPos x y) v div 81 = y" using assms(1) v unfolding e by simp
  show "flag_index (GPos x y) v div 9 mod 9 = x"
    using flag_index_div9 [OF assms(3), of "GPos x y"] assms(1) by simp
  show "flag_index (GPos x y) v mod 9 = v - 1"
    using flag_index_mod9 [OF assms(3)] .
qed

lemma cand_tboard:
  assumes "x < 9" "y < 9" "valid_val v"
  shows "cand (tboard t) (GPos x y) v = t ! y ! x ! (v - 1)"
  by (simp add: cand_tboard_index tbit_def flag_index_GPos [OF assms])

definition tset :: "bool list list list \<Rightarrow> nat \<Rightarrow> nat \<Rightarrow> nat \<Rightarrow> bool \<Rightarrow> bool list list list" where
  "tset t x y k on = t[y := (t ! y)[x := (t ! y ! x)[k := on]]]"

lemma tbit_tset:
  assumes "x < 9" "y < 9" "k < 9" "y < length t" "x < length (t ! y)" "k < length (t ! y ! x)"
  shows "tbit (tset t x y k on) n = (if n = 81 * y + (9 * x + k) then on else tbit t n)"
proof (cases "n < 729")
  case False
  then show ?thesis using assms(1-3) by (auto simp add: tbit_def)
next
  case True
  let ?m = "81 * y + (9 * x + k)"
  have m9: "?m = 9 * (9 * y + x) + k" by simp
  have m: "?m < 729" "?m div 81 = y" "?m div 9 mod 9 = x" "?m mod 9 = k"
  proof -
    show "?m < 729" using assms(1-3) by linarith
    show "?m div 81 = y" using assms(1-3) by simp
    have "?m div 9 = 9 * y + x" unfolding m9 using assms(3) by (subst div_mult_self4) simp_all
    then show "?m div 9 mod 9 = x" using assms(1) by simp
    show "?m mod 9 = k" unfolding m9 using assms(3) by (subst mod_mult_self4) simp
  qed
  have neq: "n div 81 \<noteq> y \<or> n div 9 mod 9 \<noteq> x \<or> n mod 9 \<noteq> k" if "n \<noteq> ?m"
  proof (rule ccontr)
    assume "\<not> ?thesis"
    then have a: "n div 81 = y" "n div 9 mod 9 = x" "n mod 9 = k" by simp_all
    have "n = 9 * (n div 9) + n mod 9" by simp
    moreover have "n div 9 = 9 * (n div 9 div 9) + n div 9 mod 9" by simp
    moreover have "n div 9 div 9 = n div 81" by (simp add: div_mult2_eq)
    ultimately have "n = ?m" using a by simp
    then show False using that by simp
  qed
  show ?thesis
  proof (cases "n = ?m")
    case True
    then show ?thesis using m assms(4-6) by (simp add: tbit_def tset_def)
  next
    case False
    then show ?thesis
      using neq [OF False] True assms(4-6)
      by (auto simp add: tbit_def tset_def nth_list_update split: if_splits)
  qed
qed

lemma word64_eqI: "(\<And>j. j < 64 \<Longrightarrow> bit (a::64 word) j = bit b j) \<Longrightarrow> a = b"
  by (rule bit_word_eqI) simp

lemma setFlag_tboard:
  assumes "x < 9" "y < 9" "k < 9" "y < length t" "x < length (t ! y)" "k < length (t ! y ! x)"
  shows "setFlag (tboard t) (GPos x y) (Suc k) on = tboard (tset t x y k on)"
proof -
  let ?n = "flag_index (GPos x y) (Suc k)"
  have n: "?n = 81 * y + (9 * x + k)" by (simp add: flag_index_eq)
  have "bitset (setFlag (tboard t) (GPos x y) (Suc k) on) i = bitset (tboard (tset t x y k on)) i" for i
  proof (rule word64_eqI)
    fix j :: nat assume j: "j < 64"
    have idx: "64 * i + j = ?n \<longleftrightarrow> i = ?n div 64 \<and> j = ?n mod 64"
    proof
      assume "64 * i + j = ?n"
      then have "?n div 64 = (64 * i + j) div 64" "?n mod 64 = (64 * i + j) mod 64" by simp_all
      then show "i = ?n div 64 \<and> j = ?n mod 64" using j by simp
    next
      assume "i = ?n div 64 \<and> j = ?n mod 64"
      then show "64 * i + j = ?n" by simp
    qed
    have t: "tbit (tset t x y k on) (64 * i + j) = (if 64 * i + j = ?n then on else tbit t (64 * i + j))"
      unfolding n by (rule tbit_tset [OF assms])
    show "bit (bitset (setFlag (tboard t) (GPos x y) (Suc k) on) i) j =
        bit (bitset (tboard (tset t x y k on)) i) j"
    proof (cases "i = ?n div 64")
      case True
      then show ?thesis
        using j idx unfolding bit_tboard t
        by (auto simp add: setFlag_def Let_def bit_tboard bit_set_bit_iff bit_unset_bit_iff)
    next
      case False
      then show ?thesis
        using j idx unfolding bit_tboard t
        by (auto simp add: setFlag_def Let_def bit_tboard)
    qed
  qed
  then have "bitset (setFlag (tboard t) (GPos x y) (Suc k) on) = bitset (tboard (tset t x y k on))"
    by (rule ext)
  then show ?thesis by simp
qed

lemma cand_tboard_Suc:
  assumes "x < 9" "y < 9" "k < 9"
  shows "cand (tboard t) (GPos x y) (Suc k) = t ! y ! x ! k"
  using cand_tboard [OF assms(1,2), of "Suc k" t] assms(3) by (simp add: valid_val_def)

lemma setP_tboard:
  assumes "x < 9" "y < 9" "k < 9" "y < length t" "x < length (t ! y)" "k < length (t ! y ! x)"
  shows "setP (tboard t) (GPos x y) (Suc k) on = tboard (tset t x y k on)"
proof (cases "cand (tboard t) (GPos x y) (Suc k) = on")
  case False
  then show ?thesis by (simp add: setP_def setFlag_tboard [OF assms])
next
  case True
  then have "t ! y ! x ! k = on" using assms by (simp add: cand_tboard_Suc)
  then have "(t ! y ! x)[k := on] = t ! y ! x" using list_update_id [of "t ! y ! x" k] by simp
  then have "tset t x y k on = t" by (simp add: tset_def)
  then show ?thesis using True by (simp add: setP_def)
qed

lemma default_tboard:
  "SudokuBoard_default = tboard (replicate 9 (replicate 9 (replicate 9 True)))"
proof -
  have t: "tbit (replicate 9 (replicate 9 (replicate 9 True))) n" for n
  proof (cases "n < 729")
    case True
    then have "n div 81 < 9" by simp
    then show ?thesis using True by (simp add: tbit_def)
  next
    case False
    then show ?thesis by (simp add: tbit_def)
  qed
  have "bitset SudokuBoard_default i = bitset (tboard (replicate 9 (replicate 9 (replicate 9 True)))) i" for i
    by (rule word64_eqI) (simp add: SudokuBoard_default_def bit_tboard t bit_not_iff)
  then have "bitset SudokuBoard_default = bitset (tboard (replicate 9 (replicate 9 (replicate 9 True))))"
    by (rule ext)
  then show ?thesis by simp
qed

subsection \<open>The pass as a function without exceptions\<close>

text \<open>
  Inside a pass every value handed to \<^verbatim>\<open>isPossibleAt\<close> and \<^verbatim>\<open>setPossibleAt\<close>
  is a loop variable from 1 to 9 or the only candidate of a cell, so no exception is
  raised. The functions below are the pass without the exception branches; the lemmas
  \<open>\<dots>_pure\<close> say that the model of the source equals them.
\<close>

definition elim_peer ::
  "'s eliminateListener \<Rightarrow> SimplificationCause \<Rightarrow> nat \<Rightarrow> nat \<Rightarrow> GPos \<Rightarrow> 's pass \<Rightarrow> 's pass" where
  "elim_peer L cause w onlyVal peer st =
     (if cand (board st) peer onlyVal
      then \<lparr>board = setP (board st) peer onlyVal False, eliminations = eliminations st + 1,
            obs = L cause peer onlyVal w (obs st)\<rparr>
      else st)"

definition elim_other ::
  "'s eliminateListener \<Rightarrow> SimplificationCause \<Rightarrow> nat \<Rightarrow> nat \<Rightarrow> nat \<Rightarrow> nat \<Rightarrow> GPos \<Rightarrow> 's pass \<Rightarrow> 's pass" where
  "elim_other L cause w onlyVal x y peer st =
     (if getX peer = x \<and> getY peer = y then st else elim_peer L cause w onlyVal peer st)"

definition row_cells :: "nat \<Rightarrow> GPos list" where
  "row_cells y = map (\<lambda>cx. GPos cx y) [0..<9]"

definition col_cells :: "nat \<Rightarrow> GPos list" where
  "col_cells x = map (\<lambda>cy. GPos x cy) [0..<9]"

definition naked :: "'s eliminateListener \<Rightarrow> nat \<Rightarrow> nat \<Rightarrow> nat \<Rightarrow> 's pass \<Rightarrow> 's pass" where
  "naked L x y onlyVal st =
     fold (elim_other L ELIMINATION_BY_CHUNK (x div 3 + 3 * (y div 3)) onlyVal x y)
       (chunk_cells (x div 3 * 3) (y div 3 * 3))
       (fold (elim_other L ELIMINATION_BY_COLUMN x onlyVal x y) (col_cells x)
          (fold (elim_other L ELIMINATION_BY_ROW y onlyVal x y) (row_cells y) st))"

definition uniq :: "SudokuBoard \<Rightarrow> nat \<Rightarrow> nat \<Rightarrow> nat \<Rightarrow> GPos list \<Rightarrow> bool" where
  "uniq b x y v peers = list_all (\<lambda>peer. (getX peer = x \<and> getY peer = y) \<or> \<not> cand b peer v) peers"

definition sure_state ::
  "'s eliminateListener \<Rightarrow> SimplificationCause \<Rightarrow> nat \<Rightarrow> nat \<Rightarrow> GPos \<Rightarrow> nat \<Rightarrow> 's pass \<Rightarrow> 's pass" where
  "sure_state L cause w cnt selfPos v st =
     \<lparr>board = makeSure (board st) selfPos v False, eliminations = eliminations st + (cnt - 1),
      obs = L cause selfPos v w (obs st)\<rparr>"

definition sure_if_uniq ::
  "'s eliminateListener \<Rightarrow> SimplificationCause \<Rightarrow> nat \<Rightarrow> nat \<Rightarrow> nat \<Rightarrow> nat \<Rightarrow> nat \<Rightarrow> GPos list
     \<Rightarrow> 's pass \<Rightarrow> 's pass" where
  "sure_if_uniq L cause w cnt x y v peers st =
     (if uniq (board st) x y v peers then sure_state L cause w cnt (GPos x y) v st else st)"

definition hidden_value :: "'s eliminateListener \<Rightarrow> nat \<Rightarrow> nat \<Rightarrow> nat \<Rightarrow> nat \<Rightarrow> 's pass \<Rightarrow> 's pass" where
  "hidden_value L x y cnt v st =
     (if \<not> cand (board st) (GPos x y) v then st
      else sure_if_uniq L VALUE_SURE_BY_CHUNK (x div 3 + 3 * (y div 3)) cnt x y v
             (chunk_cells (x div 3 * 3) (y div 3 * 3))
             (sure_if_uniq L VALUE_SURE_BY_COLUMN x cnt x y v (col_cells x)
                (sure_if_uniq L VALUE_SURE_BY_ROW y cnt x y v (row_cells y) st)))"

definition cell_after :: "'s eliminateListener \<Rightarrow> nat \<Rightarrow> nat \<Rightarrow> 's pass \<Rightarrow> nat list \<Rightarrow> bool \<times> 's pass" where
  "cell_after L x y st cs =
     (if cs = [] then (False, st\<lparr>obs := L NO_VALUE_POSSIBLE (GPos x y) 0 0 (obs st)\<rparr>)
      else if length cs = 1 then (True, st)
      else (True, fold (hidden_value L x y (length cs)) [1..<10] st))"

definition cell_rest :: "'s eliminateListener \<Rightarrow> nat \<Rightarrow> nat \<Rightarrow> 's pass \<Rightarrow> bool \<times> 's pass" where
  "cell_rest L x y st = cell_after L x y st (candidates (board st) (GPos x y))"

definition cell_first :: "'s eliminateListener \<Rightarrow> nat \<Rightarrow> nat \<Rightarrow> 's pass \<Rightarrow> nat list \<Rightarrow> bool \<times> 's pass" where
  "cell_first L x y st cs =
     (if cs = [] then (False, st\<lparr>obs := L NO_VALUE_POSSIBLE (GPos x y) 0 0 (obs st)\<rparr>)
      else if length cs = 1 then cell_rest L x y (naked L x y (last cs) st)
      else cell_rest L x y st)"

definition cell_pass :: "'s eliminateListener \<Rightarrow> GPos \<Rightarrow> 's pass \<Rightarrow> bool \<times> 's pass" where
  "cell_pass L selfPos st =
     cell_first L (getX selfPos) (getY selfPos) st (candidates (board st) selfPos)"

fun cells_pass :: "'s eliminateListener \<Rightarrow> GPos list \<Rightarrow> bool \<times> 's pass \<Rightarrow> bool \<times> 's pass" where
  "cells_pass L [] r = r"
| "cells_pass L (selfPos # cells) r =
     (if fst r then cells_pass L cells (cell_pass L selfPos (snd r)) else r)"

lemma forE_pure:
  assumes "\<And>i s. i \<in> set xs \<Longrightarrow> body i s = Inr (g i s)"
  shows "forE xs body s = Inr (fold g xs s)"
  using assms by (induction xs arbitrary: s) simp_all

lemma eliminate_peer_pure:
  "valid_val onlyVal \<Longrightarrow>
   eliminate_peer L cause w onlyVal peer st = Inr (elim_peer L cause w onlyVal peer st)"
  by (simp add: eliminate_peer_eq elim_peer_def)

lemma naked_single_pure:
  assumes "valid_val onlyVal"
  shows "naked_single L x y onlyVal st = Inr (naked L x y onlyVal st)"
proof -
  have row: "forE [0..<9]
       (\<lambda>cx st. if cx = x then Inr st
          else eliminate_peer L ELIMINATION_BY_ROW y onlyVal (GPos cx y) st) s =
      Inr (fold (elim_other L ELIMINATION_BY_ROW y onlyVal x y) (row_cells y) s)" for s
    unfolding row_cells_def fold_map comp_def
    by (rule forE_pure) (simp add: elim_other_def eliminate_peer_pure [OF assms])
  have col: "forE [0..<9]
       (\<lambda>cy st. if cy = y then Inr st
          else eliminate_peer L ELIMINATION_BY_COLUMN x onlyVal (GPos x cy) st) s =
      Inr (fold (elim_other L ELIMINATION_BY_COLUMN x onlyVal x y) (col_cells x) s)" for s
    unfolding col_cells_def fold_map comp_def
    by (rule forE_pure) (simp add: elim_other_def eliminate_peer_pure [OF assms])
  have chunk: "forE (chunk_cells (x div 3 * 3) (y div 3 * 3))
        (\<lambda>peer st. if getX peer = x \<and> getY peer = y then Inr st
           else eliminate_peer L ELIMINATION_BY_CHUNK (x div 3 + 3 * (y div 3)) onlyVal peer st) s =
      Inr (fold (elim_other L ELIMINATION_BY_CHUNK (x div 3 + 3 * (y div 3)) onlyVal x y)
        (chunk_cells (x div 3 * 3) (y div 3 * 3)) s)" for s
    by (rule forE_pure) (simp add: elim_other_def eliminate_peer_pure [OF assms])
  show ?thesis
    unfolding naked_single_def naked_def Let_def by (simp only: row col chunk bindE_Inr)
qed

lemma unique_in_pure:
  "valid_val v \<Longrightarrow> unique_in b x y v peers = Inr (uniq b x y v peers)"
  by (simp add: unique_in_eq uniq_def list_all_iff)

lemma unique_in_chunk_pure:
  "valid_val v \<Longrightarrow> unique_in_chunk b x y v peers = Inr (uniq b x y v peers)"
  by (simp add: unique_in_chunk_eq uniq_def list_all_iff)

lemma sure_if_pure:
  "(if c then value_sure L cause w cnt p v st else Inr st) =
   Inr (if c then sure_state L cause w cnt p v st else st)"
  by (simp add: value_sure_eq sure_state_def)

lemma hidden_single_value_pure:
  assumes "valid_val v"
  shows "hidden_single_value L x y cnt v st = Inr (hidden_value L x y cnt v st)"
  unfolding hidden_single_value_def hidden_value_def sure_if_uniq_def Let_def
    row_cells_def [symmetric] col_cells_def [symmetric]
  by (simp only: isPossibleAt_cand [OF assms] unique_in_pure [OF assms]
      unique_in_chunk_pure [OF assms] bindE_Inr sure_if_pure if_distrib [of Inr, symmetric])

lemma hidden_loop_pure:
  "forE [1..<10] (hidden_single_value L x y cnt) st = Inr (fold (hidden_value L x y cnt) [1..<10] st)"
  by (rule forE_pure) (simp only: valid_val_upt hidden_single_value_pure)

lemma simplify_cell_pure: "simplify_cell L selfPos st = Inr (cell_pass L selfPos st)"
proof -
  obtain x y where p: "selfPos = GPos x y" by (cases selfPos)
  let ?cs = "candidates (board st) (GPos x y)"
  have rest: "(if length (candidates (board st1) (GPos x y)) = 0
               then Inr (False, st1\<lparr>obs := L NO_VALUE_POSSIBLE (GPos x y) 0 0 (obs st1)\<rparr>)
               else if length (candidates (board st1) (GPos x y)) = 1 then Inr (True, st1)
               else bindE (forE [1..<10]
                       (hidden_single_value L x y (length (candidates (board st1) (GPos x y)))) st1)
                     (\<lambda>st. Inr (True, st))) = Inr (cell_rest L x y st1)" for st1
    unfolding hidden_loop_pure by (simp add: cell_rest_def cell_after_def)
  show ?thesis
  proof (cases "length ?cs = 1")
    case True
    then have ne: "?cs \<noteq> []" by auto
    then have "valid_val (last ?cs)" by (rule last_candidates_valid)
    then show ?thesis
      unfolding p simplify_cell_unfold rest
      using True ne by (simp add: cell_pass_def cell_first_def naked_single_pure)
  next
    case False
    then show ?thesis
      unfolding p simplify_cell_unfold rest
      by (simp add: cell_pass_def cell_first_def)
  qed
qed

lemma simplify_cells_pure:
  "simplify_cells L cells st = Inr (cells_pass L cells (True, st))"
proof (induction cells arbitrary: st)
  case Nil
  then show ?case by simp
next
  case (Cons p cells)
  obtain g st1 where c: "cell_pass L p st = (g, st1)" by (cases "cell_pass L p st")
  have stop: "cells_pass L cells (False, st1) = (False, st1)" by (cases cells) simp_all
  show ?case
    using Cons.IH [of st1] c stop by (simp add: simplify_cell_pure)
qed

lemma simplify_pure:
  "simplify L b s =
     Inr (case cells_pass L all_cells (True, \<lparr>board = b, eliminations = 0, obs = s\<rparr>) of
            (ok, st) \<Rightarrow> (ok, eliminations st, board st, obs st))"
  by (simp add: simplify_def simplify_cells_pure split: prod.splits)

subsection \<open>Computing a pass on a table\<close>

lemma upt_1_10: "[Suc 0..<10] = [1, 2, 3, 4, 5, 6, 7, 8, 9::nat]"
  by (simp add: upt_conv_Cons)

lemma upt_0_9: "[0..<9] = [0, 1, 2, 3, 4, 5, 6, 7, 8::nat]"
  by (simp add: upt_conv_Cons)

lemma all_cells_eq: "all_cells =
  [GPos 0 0, GPos 1 0, GPos 2 0, GPos 3 0, GPos 4 0, GPos 5 0, GPos 6 0, GPos 7 0, GPos 8 0,
   GPos 0 1, GPos 1 1, GPos 2 1, GPos 3 1, GPos 4 1, GPos 5 1, GPos 6 1, GPos 7 1, GPos 8 1,
   GPos 0 2, GPos 1 2, GPos 2 2, GPos 3 2, GPos 4 2, GPos 5 2, GPos 6 2, GPos 7 2, GPos 8 2,
   GPos 0 3, GPos 1 3, GPos 2 3, GPos 3 3, GPos 4 3, GPos 5 3, GPos 6 3, GPos 7 3, GPos 8 3,
   GPos 0 4, GPos 1 4, GPos 2 4, GPos 3 4, GPos 4 4, GPos 5 4, GPos 6 4, GPos 7 4, GPos 8 4,
   GPos 0 5, GPos 1 5, GPos 2 5, GPos 3 5, GPos 4 5, GPos 5 5, GPos 6 5, GPos 7 5, GPos 8 5,
   GPos 0 6, GPos 1 6, GPos 2 6, GPos 3 6, GPos 4 6, GPos 5 6, GPos 6 6, GPos 7 6, GPos 8 6,
   GPos 0 7, GPos 1 7, GPos 2 7, GPos 3 7, GPos 4 7, GPos 5 7, GPos 6 7, GPos 7 7, GPos 8 7,
   GPos 0 8, GPos 1 8, GPos 2 8, GPos 3 8, GPos 4 8, GPos 5 8, GPos 6 8, GPos 7 8, GPos 8 8]"
  by (simp add: all_cells_def upt_0_9)

lemma upt_3: "[n..<n + 3] = [n, n + 1, n + 2]"
  by (simp add: upt_conv_Cons)

lemma chunk_cells_eq:
  "chunk_cells cx cy =
     [GPos cx cy, GPos (cx + 1) cy, GPos (cx + 2) cy,
      GPos cx (cy + 1), GPos (cx + 1) (cy + 1), GPos (cx + 2) (cy + 1),
      GPos cx (cy + 2), GPos (cx + 1) (cy + 2), GPos (cx + 2) (cy + 2)]"
  unfolding chunk_cells_def upt_3 by simp

lemma Suc_Suc_0: "Suc (Suc 0) = 2"
  by simp

lemma list_update_numeral:
  "(x # xs)[numeral n := y] = x # xs[pred_numeral n := y]"
  by (simp add: numeral_eq_Suc)

lemma cand_tboard_num:
  "x < 9 \<Longrightarrow> y < 9 \<Longrightarrow> 1 \<le> v \<Longrightarrow> v \<le> 9 \<Longrightarrow> cand (tboard t) (GPos x y) v = t ! y ! x ! (v - 1)"
  by (simp add: cand_tboard valid_val_def)

lemma setP_tboard_num:
  assumes "x < 9" "y < 9" "1 \<le> v" "v \<le> 9" "y < length t" "x < length (t ! y)" "v - 1 < length (t ! y ! x)"
  shows "setP (tboard t) (GPos x y) v on = tboard (tset t x y (v - 1) on)"
proof -
  have "v = Suc (v - 1)" "v - 1 < 9" using assms(3,4) by simp_all
  then show ?thesis using setP_tboard [OF assms(1,2) _ assms(5,6,7), of on] by simp
qed

definition T0 :: "bool list list list" where
  "T0 = replicate 9 (replicate 9 (replicate 9 True))"

lemma T0_eq: "T0 =
 [[[True,True,True,True,True,True,True,True,True],[True,True,True,True,True,True,True,True,True],[True,True,True,True,True,True,True,True,True],[True,True,True,True,True,True,True,True,True],[True,True,True,True,True,True,True,True,True],[True,True,True,True,True,True,True,True,True],[True,True,True,True,True,True,True,True,True],[True,True,True,True,True,True,True,True,True],[True,True,True,True,True,True,True,True,True]],
  [[True,True,True,True,True,True,True,True,True],[True,True,True,True,True,True,True,True,True],[True,True,True,True,True,True,True,True,True],[True,True,True,True,True,True,True,True,True],[True,True,True,True,True,True,True,True,True],[True,True,True,True,True,True,True,True,True],[True,True,True,True,True,True,True,True,True],[True,True,True,True,True,True,True,True,True],[True,True,True,True,True,True,True,True,True]],
  [[True,True,True,True,True,True,True,True,True],[True,True,True,True,True,True,True,True,True],[True,True,True,True,True,True,True,True,True],[True,True,True,True,True,True,True,True,True],[True,True,True,True,True,True,True,True,True],[True,True,True,True,True,True,True,True,True],[True,True,True,True,True,True,True,True,True],[True,True,True,True,True,True,True,True,True],[True,True,True,True,True,True,True,True,True]],
  [[True,True,True,True,True,True,True,True,True],[True,True,True,True,True,True,True,True,True],[True,True,True,True,True,True,True,True,True],[True,True,True,True,True,True,True,True,True],[True,True,True,True,True,True,True,True,True],[True,True,True,True,True,True,True,True,True],[True,True,True,True,True,True,True,True,True],[True,True,True,True,True,True,True,True,True],[True,True,True,True,True,True,True,True,True]],
  [[True,True,True,True,True,True,True,True,True],[True,True,True,True,True,True,True,True,True],[True,True,True,True,True,True,True,True,True],[True,True,True,True,True,True,True,True,True],[True,True,True,True,True,True,True,True,True],[True,True,True,True,True,True,True,True,True],[True,True,True,True,True,True,True,True,True],[True,True,True,True,True,True,True,True,True],[True,True,True,True,True,True,True,True,True]],
  [[True,True,True,True,True,True,True,True,True],[True,True,True,True,True,True,True,True,True],[True,True,True,True,True,True,True,True,True],[True,True,True,True,True,True,True,True,True],[True,True,True,True,True,True,True,True,True],[True,True,True,True,True,True,True,True,True],[True,True,True,True,True,True,True,True,True],[True,True,True,True,True,True,True,True,True],[True,True,True,True,True,True,True,True,True]],
  [[True,True,True,True,True,True,True,True,True],[True,True,True,True,True,True,True,True,True],[True,True,True,True,True,True,True,True,True],[True,True,True,True,True,True,True,True,True],[True,True,True,True,True,True,True,True,True],[True,True,True,True,True,True,True,True,True],[True,True,True,True,True,True,True,True,True],[True,True,True,True,True,True,True,True,True],[True,True,True,True,True,True,True,True,True]],
  [[True,True,True,True,True,True,True,True,True],[True,True,True,True,True,True,True,True,True],[True,True,True,True,True,True,True,True,True],[True,True,True,True,True,True,True,True,True],[True,True,True,True,True,True,True,True,True],[True,True,True,True,True,True,True,True,True],[True,True,True,True,True,True,True,True,True],[True,True,True,True,True,True,True,True,True],[True,True,True,True,True,True,True,True,True]],
  [[True,True,True,True,True,True,True,True,True],[True,True,True,True,True,True,True,True,True],[True,True,True,True,True,True,True,True,True],[True,True,True,True,True,True,True,True,True],[True,True,True,True,True,True,True,True,True],[True,True,True,True,True,True,True,True,True],[True,True,True,True,True,True,True,True,True],[True,True,True,True,True,True,True,True,True],[True,True,True,True,True,True,True,True,True]]]"
  by (simp add: T0_def numeral_eq_Suc)


lemma fold_Cons_apply: "fold f (x # xs) s = fold f xs (f x s)"
  by simp

text \<open>A listener that does nothing, as the overloads of \<^verbatim>\<open>dfsSolve\<close> without listeners pass.\<close>

definition noop :: "unit eliminateListener" where
  "noop c p v w s = s"

lemma nth_Cons_num: "(x # xs) ! numeral n = xs ! pred_numeral n"
  by (simp add: numeral_eq_Suc)

lemma nth_Cons_1: "(x # xs) ! 1 = xs ! 0"
  by simp

lemma list_update_1: "(x # xs)[1 := y] = x # xs[0 := y]"
  by simp

lemma list_update_num: "(x # xs)[numeral n := y] = x # xs[pred_numeral n := y]"
  by (simp add: numeral_eq_Suc)

lemma upt_1_10': "[1..<10] = [1, 2, 3, 4, 5, 6, 7, 8, 9::nat]"
  by (simp add: upt_conv_Cons)

lemma list_all_Nil: "list_all P [] = True"
  by simp

lemma list_all_Cons: "list_all P (x # xs) = (P x \<and> list_all P xs)"
  by simp

lemma length_Cons_plus: "length (x # xs) = length xs + 1"
  by simp

lemma numeral_minus_1: "numeral n - (1::nat) = pred_numeral n"
  by (simp add: numeral_eq_Suc)

lemma one_minus_1: "(1::nat) - 1 = 0"
  by simp

lemma chunk_start:
  "(0::nat) div 3 * 3 = 0" "(1::nat) div 3 * 3 = 0" "(2::nat) div 3 * 3 = 0"
  "(3::nat) div 3 * 3 = 3" "(4::nat) div 3 * 3 = 3" "(5::nat) div 3 * 3 = 3"
  "(6::nat) div 3 * 3 = 6" "(7::nat) div 3 * 3 = 6" "(8::nat) div 3 * 3 = 6"
  by simp_all

lemmas eval_only =
  cand_tboard_num setP_tboard_num tset_def
  upt_1_10' upt_0_9 chunk_cells_eq candidates_def
  elim_peer_def elim_other_def row_cells_def col_cells_def naked_def uniq_def sure_state_def
  sure_if_uniq_def hidden_value_def cell_after_def cell_rest_def cell_first_def cell_pass_def
  makeSure_def sure_step_def cells_pass.simps noop_def
  if_True if_False simp_thms
  nth_Cons_0 nth_Cons_num nth_Cons_1 list_update_code(2) list_update_num list_update_1
  pred_numeral_simps numeral_minus_1 one_minus_1 chunk_start
  list.simps filter.simps fold_Cons_apply fold_Nil id_apply list_all_Nil list_all_Cons last.simps
  list.size(3) length_Cons_plus one_add_one numeral_plus_one one_plus_numeral
  pass.simps GPos.sel GPos.inject fst_conv snd_conv prod.case prod.inject
  arith_simps rel_simps

text \<open>
  The boards of the examples are built as the command-line program builds its board: from
  the default board, by \<^verbatim>\<open>makeSureAt\<close> with \<open>force = true\<close> for each clue.
\<close>

definition with_clues :: "(GPos \<times> nat) list \<Rightarrow> error + SudokuBoard" where
  "with_clues cs = forE cs (\<lambda>(p, v) b. makeSureAt b p v True) SudokuBoard_default"

text \<open>The number of flags that are set, counted cell by cell.\<close>

definition count_flags :: "SudokuBoard \<Rightarrow> nat" where
  "count_flags b = sum_list (map (\<lambda>p. length (candidates b p)) all_cells)"

lemma bindE_cong_weak: "m = m' \<Longrightarrow> bindE m f = bindE m' f"
  by simp

lemma default_T0: "SudokuBoard_default = tboard T0"
  by (simp add: default_tboard T0_def)

lemmas run_only = eval_only with_clues_def forE.simps bindE_Inr makeSureAt_eq default_T0 T0_eq
  simplify_pure all_cells_eq count_flags_def sum_list.Cons sum_list.Nil

lemma distinct_all_cells: "distinct all_cells"
  unfolding all_cells_eq by (simp only: distinct.simps set_simps insert_iff empty_iff GPos.inject
      rel_simps simp_thms)

lemma distinct_cell_flags:
  assumes "distinct ps"
  shows "distinct (concat (map (\<lambda>p. map (Pair p) (candidates b p)) ps))"
  using assms
proof (induction ps)
  case Nil
  then show ?case by simp
next
  case (Cons p ps)
  have "distinct (map (Pair p) (candidates b p))"
    by (simp add: distinct_map candidates_def inj_on_def)
  then show ?case using Cons by auto
qed

lemma nflags_count: "nflags b = count_flags b"
proof -
  let ?l = "concat (map (\<lambda>p. map (Pair p) (candidates b p)) all_cells)"
  have "set ?l = flags b"
    by (auto simp add: flags_def set_all_cells candidates_iff)
  then have "nflags b = card (set ?l)" by (simp add: nflags_def)
  also have "\<dots> = length ?l"
    by (rule distinct_card) (rule distinct_cell_flags [OF distinct_all_cells])
  also have "\<dots> = count_flags b"
    by (simp add: count_flags_def length_concat comp_def)
  finally show ?thesis .
qed

lemma simplify_any_listener:
  assumes "simplify L0 b s0 = Inr (ok, e, b', s0')"
  shows "\<exists>s'. simplify L b s = Inr (ok, e, b', s')"
proof -
  obtain ok2 e2 b2 s2 where 2: "simplify L b s = Inr (ok2, e2, b2, s2)"
    using simplify_le [of L b s] by blast
  have "rel_listener (\<lambda>_ _. True) L0 L" by (simp add: rel_listener_def)
  from simplify_rel [OF this, where s = s0 and s' = s and b = b] show ?thesis
    using assms 2 by simp
qed

lemma single_clue_eval:
  "bindE (with_clues [(GPos 4 4, 5)]) (\<lambda>b. bindE (simplify noop b ())
     (\<lambda>(ok, e, b', s). Inr (ok, e, count_flags b, count_flags b'))) = Inr (True, 20, 721, 701)"
  by (simp only: run_only cong: if_weak_cong bindE_cong_weak prod.case_cong_weak)

lemma eight_ones_eval:
  "bindE (with_clues [(GPos 0 0, 1), (GPos 3 1, 1), (GPos 6 2, 1), (GPos 1 3, 1), (GPos 4 4, 1),
       (GPos 7 5, 1), (GPos 2 6, 1), (GPos 5 7, 1)]) (\<lambda>b. bindE (simplify noop b ())
     (\<lambda>(ok, e, b', s). Inr (ok, e, count_flags b, count_flags b'))) = Inr (True, 96, 665, 585)"
  by (simp only: run_only cong: if_weak_cong bindE_cong_weak prod.case_cong_weak)

lemma with_clues_returns: "\<exists>b. with_clues cs = Inr b"
  unfolding with_clues_def
  by (rule forE_invariant [where I = "\<lambda>_. True", simplified]) (auto simp add: makeSureAt_eq)

lemma pass_of_eval:
  assumes "bindE (with_clues cs) (\<lambda>b. bindE (simplify noop b ())
     (\<lambda>(ok, e, b', s). Inr (ok, e, count_flags b, count_flags b'))) = Inr (ok0, e0, n, n')"
  shows "\<exists>b b' s'. with_clues cs = Inr b \<and> simplify L b s = Inr (ok0, e0, b', s') \<and>
     nflags b = n \<and> nflags b' = n'"
proof -
  obtain b where b: "with_clues cs = Inr b" using with_clues_returns by blast
  obtain ok e b' s' where 1: "simplify noop b () = Inr (ok, e, b', s')"
    using simplify_le [of noop b "()"] by blast
  have "ok = ok0" "e = e0" "count_flags b = n" "count_flags b' = n'"
    using assms by (simp_all add: b 1)
  then show ?thesis
    using b 1 simplify_any_listener [OF 1, of L s] by (auto simp add: nflags_count)
qed

lemma single_clue_pass:
  "\<exists>b b' s'. makeSureAt SudokuBoard_default (GPos 4 4) 5 True = Inr b \<and>
     simplify L b s = Inr (True, 20, b', s') \<and> nflags b = 721 \<and> nflags b' = 701"
  using pass_of_eval [OF single_clue_eval, of L s] by (simp add: with_clues_def makeSureAt_eq)

text \<open>
  Two listeners for the statements below: one that records its invocations, in order, and
  one that leaves the observer's state as it is.
\<close>

definition record_pass :: "(nat \<times> nat \<times> nat) list simplifyListener" where
  "record_pass index eliminated eliminatedSum log = log @ [(index, eliminated, eliminatedSum)]"

definition ignore_elimination :: "'s eliminateListener" where
  "ignore_elimination cause cell v w s = s"

lemma simplify_ignore_obs:
  assumes "simplify ignore_elimination b z = Inr (ok, e, b', z')"
  shows "z' = z"
proof -
  have "rel_listener (\<lambda>s s'. s = z) ignore_elimination ignore_elimination"
    by (simp add: rel_listener_def ignore_elimination_def)
  from simplify_rel [OF this, where s = z and s' = z and b = b] show ?thesis
    using assms by simp
qed

lemma upt_Suc_shift: "map f [0..<Suc n] = f 0 # map (\<lambda>j. f (Suc j)) [0..<n]"
  by (simp add: upt_conv_Cons map_Suc_upt [symmetric] del: upt_Suc)

lemma recorded_loop:
  "\<exists>ok total b' log ps.
     simplifyToTheEnd_loop record_pass ignore_elimination t i passes b log0 =
       Inr (ok, total, b', log, passes @ ps) \<and> ps \<noteq> [] \<and>
     log = log0 @ map (\<lambda>j. (i + j, ps ! j, t + sum_list (take (Suc j) ps)))
                      [0..<(if ok then length ps - 1 else length ps)]"
proof (induction record_pass "ignore_elimination :: (nat \<times> nat \<times> nat) list eliminateListener"
    t i passes b log0 rule: simplifyToTheEnd_loop.induct)
  case (1 t i passes b log0)
  obtain ok e b' s' where simp0: "simplify ignore_elimination b log0 = Inr (ok, e, b', s')"
    using simplify_le [of ignore_elimination b log0] by blast
  have s': "s' = log0" using simplify_ignore_obs [OF simp0] .
  note simp = simp0 [unfolded s']
  note step = simplifyToTheEnd_loop_step [OF simp, of record_pass t i passes]
  show ?case
  proof (cases "ok \<and> e \<noteq> 0")
    case False
    have "simplifyToTheEnd_loop record_pass ignore_elimination t i passes b log0 =
        Inr (ok, (if ok then t else t + e), b',
             (if ok then log0 else log0 @ [(i, e, t + e)]), passes @ [e]) \<and> [e] \<noteq> [] \<and>
        (if ok then log0 else log0 @ [(i, e, t + e)]) =
          log0 @ map (\<lambda>j. (i + j, [e] ! j, t + sum_list (take (Suc j) [e])))
                      [0..<(if ok then length [e] - 1 else length [e])]"
      using False step by (auto simp add: record_pass_def)
    then show ?thesis by blast
  next
    case True
    then have ok: ok and e: "e \<noteq> 0" by simp_all
    obtain ok2 total b2 log ps where
      rec: "simplifyToTheEnd_loop record_pass ignore_elimination (t + e) (i + 1) (passes @ [e]) b'
          (record_pass i e (t + e) log0) = Inr (ok2, total, b2, log, (passes @ [e]) @ ps)"
      and ne: "ps \<noteq> []"
      and log: "log = record_pass i e (t + e) log0 @
          map (\<lambda>j. (i + 1 + j, ps ! j, t + e + sum_list (take (Suc j) ps)))
              [0..<(if ok2 then length ps - 1 else length ps)]"
      using "1.hyps" [OF simp refl refl refl _ e refl] ok by auto
    let ?n = "if ok2 then length ps - 1 else length ps"
    have n: "(if ok2 then length (e # ps) - 1 else length (e # ps)) = Suc ?n"
      using ne by (cases ps) auto
    have "simplifyToTheEnd_loop record_pass ignore_elimination t i passes b log0 =
        Inr (ok2, total, b2, log, passes @ (e # ps))"
      using step ok e rec by simp
    moreover have "log = log0 @ map (\<lambda>j. (i + j, (e # ps) ! j, t + sum_list (take (Suc j) (e # ps))))
        [0..<(if ok2 then length (e # ps) - 1 else length (e # ps))]"
      unfolding n upt_Suc_shift log by (simp add: record_pass_def add.assoc)
    ultimately show ?thesis by blast
  qed
qed

lemmas fix_only = run_only simplifyToTheEnd_def simplifyToTheEnd_loop.simps Let_def
  ignore_elimination_def record_pass_def append.simps

lemma default_fixpoint:
  "simplifyToTheEnd record_pass ignore_elimination SudokuBoard_default [] =
     Inr (True, 0, SudokuBoard_default, [], [0])"
  by (simp only: fix_only cong: if_weak_cong bindE_cong_weak prod.case_cong_weak)


lemma empty_cell_fixpoint:
  "bindE (makeSureAt SudokuBoard_default (GPos 0 0) 0 False) (\<lambda>b.
     bindE (simplifyToTheEnd record_pass ignore_elimination b [])
       (\<lambda>(ok, total, b', log, passes). Inr (ok, total, log, passes))) =
   Inr (False, 0, [(0, 0, 0)], [0])"
  by (simp only: fix_only cong: if_weak_cong bindE_cong_weak prod.case_cong_weak)

text \<open>
  What the recording listener has seen at the end of \<^verbatim>\<open>simplifyToTheEnd\<close>: one entry
  for each call of \<^verbatim>\<open>simplify\<close> that reported a contradiction or eliminated something,
  with the index of the pass, its count and the running total; the pass that ends a
  fixpoint run (it eliminates nothing) has no entry.
\<close>

lemma recorded_passes:
  "\<exists>ok total b' log passes.
     simplifyToTheEnd record_pass ignore_elimination b [] = Inr (ok, total, b', log, passes) \<and>
     passes \<noteq> [] \<and> total = sum_list passes \<and>
     log = map (\<lambda>i. (i, passes ! i, sum_list (take (Suc i) passes)))
             [0..<(if ok then length passes - 1 else length passes)] \<and>
     (ok \<longrightarrow> last passes = 0)"
proof -
  obtain ok total b' log ps where
    1: "simplifyToTheEnd_loop record_pass ignore_elimination 0 0 [] b [] =
        Inr (ok, total, b', log, [] @ ps)"
    and ne: "ps \<noteq> []"
    and log: "log = [] @ map (\<lambda>j. (0 + j, ps ! j, 0 + sum_list (take (Suc j) ps)))
                      [0..<(if ok then length ps - 1 else length ps)]"
    using recorded_loop [of 0 0 "[]" b "[]"] by blast
  obtain ok2 total2 b2 s2 ps2 where
    2: "simplifyToTheEnd_loop record_pass ignore_elimination 0 0 [] b [] =
        Inr (ok2, total2, b2, s2, [] @ ps2)"
    and tot: "total2 = 0 + sum_list ps2" and fx: "ok2 \<longrightarrow> last ps2 = 0"
    using simplifyToTheEnd_loop_result [of record_pass ignore_elimination 0 0 "[]" b "[]"] by blast
  have "simplifyToTheEnd record_pass ignore_elimination b [] = Inr (ok, total, b', log, ps) \<and>
     ps \<noteq> [] \<and> total = sum_list ps \<and>
     log = map (\<lambda>i. (i, ps ! i, sum_list (take (Suc i) ps)))
             [0..<(if ok then length ps - 1 else length ps)] \<and>
     (ok \<longrightarrow> last ps = 0)"
    using 1 2 ne log tot fx by (auto simp add: simplifyToTheEnd_def)
  then show ?thesis by blast
qed

section \<open>The choice of the branching cell\<close>

text \<open>
  One step of the scan of \<^verbatim>\<open>findMRVCell\<close> on a board without an empty cell: the locals
  \<open>(bestPos, bestCount)\<close> after the cell \<open>gp\<close>.
\<close>

definition mrv_step :: "SudokuBoard \<Rightarrow> GPos \<Rightarrow> GPos \<times> nat \<Rightarrow> GPos \<times> nat" where
  "mrv_step b gp best =
     (if 1 < length (candidates b gp) \<and> length (candidates b gp) < snd best
      then (gp, length (candidates b gp)) else best)"

lemma findMRVCell_scan_zero:
  assumes "\<forall>q\<in>set pre. length (candidates b q) \<noteq> 0" "length (candidates b p) = 0"
  shows "findMRVCell_scan b (pre @ p # post) bestPos bestCount = Inr (Inl (p, 0))"
  using assms(1)
proof (induction pre arbitrary: bestPos bestCount)
  case Nil
  then show ?case using assms(2) by (simp add: getCellInfoAt_eq)
next
  case (Cons q pre)
  then show ?case by (simp add: getCellInfoAt_eq)
qed

lemma findMRVCell_scan_fold:
  assumes "\<forall>q\<in>set cells. length (candidates b q) \<noteq> 0"
  shows "findMRVCell_scan b cells bestPos bestCount =
     Inr (Inr (fold (mrv_step b) cells (bestPos, bestCount)))"
  using assms
proof (induction cells arbitrary: bestPos bestCount)
  case Nil
  then show ?case by simp
next
  case (Cons q cells)
  then show ?case by (simp add: getCellInfoAt_eq mrv_step_def)
qed

lemma mrv_fold:
  assumes "fold (mrv_step b) cells (bp0, bc0) = (bp, bc)"
  shows "bc \<le> bc0 \<and> (\<forall>q\<in>set cells. 1 < length (candidates b q) \<longrightarrow> bc \<le> length (candidates b q)) \<and>
     (if bc = bc0 then bp = bp0
      else 1 < bc \<and> (\<exists>pre post. cells = pre @ bp # post \<and> length (candidates b bp) = bc \<and>
             (\<forall>q\<in>set pre. length (candidates b q) \<noteq> bc)))"
  using assms
proof (induction cells arbitrary: bp bc rule: rev_induct)
  case Nil
  then show ?case by simp
next
  case (snoc x xs)
  obtain bp1 bc1 where f: "fold (mrv_step b) xs (bp0, bc0) = (bp1, bc1)"
    by (cases "fold (mrv_step b) xs (bp0, bc0)")
  note IH = snoc.IH [OF f]
  have le: "bc1 \<le> bc0" and lo: "\<forall>q\<in>set xs. 1 < length (candidates b q) \<longrightarrow> bc1 \<le> length (candidates b q)"
    using IH by simp_all
  have st: "mrv_step b x (bp1, bc1) = (bp, bc)" using snoc.prems f by simp
  show ?case
  proof (cases "1 < length (candidates b x) \<and> length (candidates b x) < bc1")
    case True
    then have eq: "bp = x" "bc = length (candidates b x)" using st by (auto simp add: mrv_step_def)
    have "\<forall>q\<in>set xs. length (candidates b q) \<noteq> bc"
    proof
      fix q assume q: "q \<in> set xs"
      show "length (candidates b q) \<noteq> bc"
      proof
        assume c: "length (candidates b q) = bc"
        then have "1 < length (candidates b q)" using True eq by simp
        then have "bc1 \<le> length (candidates b q)" using lo q by blast
        then show False using True eq c by simp
      qed
    qed
    then have "\<exists>pre post. xs @ [x] = pre @ bp # post \<and> length (candidates b bp) = bc \<and>
             (\<forall>q\<in>set pre. length (candidates b q) \<noteq> bc)"
      using eq by (intro exI [of _ xs] exI [of _ "[]"]) simp
    moreover have "bc \<noteq> bc0" "1 < bc" "bc \<le> bc0" using True eq le by simp_all
    moreover have "\<forall>q\<in>set (xs @ [x]). 1 < length (candidates b q) \<longrightarrow> bc \<le> length (candidates b q)"
      using lo True eq by auto
    ultimately show ?thesis by simp
  next
    case False
    then have eq: "bp = bp1" "bc = bc1" using st by (auto simp add: mrv_step_def)
    have lo': "\<forall>q\<in>set (xs @ [x]). 1 < length (candidates b q) \<longrightarrow> bc \<le> length (candidates b q)"
      using lo False eq by auto
    show ?thesis
    proof (cases "bc = bc0")
      case True
      then show ?thesis using IH eq le lo' by simp
    next
      case ne: False
      then obtain pre post where "xs = pre @ bp # post" "length (candidates b bp) = bc"
          "\<forall>q\<in>set pre. length (candidates b q) \<noteq> bc" and b1: "1 < bc"
        using IH eq by auto
      then have "xs @ [x] = pre @ bp # (post @ [x]) \<and> length (candidates b bp) = bc \<and>
          (\<forall>q\<in>set pre. length (candidates b q) \<noteq> bc)" by simp
      then have "\<exists>pre post. xs @ [x] = pre @ bp # post \<and> length (candidates b bp) = bc \<and>
          (\<forall>q\<in>set pre. length (candidates b q) \<noteq> bc)" by blast
      then show ?thesis using ne b1 le lo' eq by simp
    qed
  qed
qed

text \<open>The first index of the list at which a predicate holds is unique.\<close>

lemma first_index_unique:
  assumes "xs = pre @ p # post" "\<forall>q\<in>set pre. \<not> P q" "P p"
    and "i < length xs" "P (xs ! i)" "\<forall>j<i. \<not> P (xs ! j)"
  shows "xs ! i = p"
proof -
  have "i = length pre"
  proof (rule ccontr)
    assume ne: "i \<noteq> length pre"
    show False
    proof (cases "i < length pre")
      case True
      then have "xs ! i \<in> set pre" using assms(1) by (simp add: nth_append)
      then show False using assms(2,5) by blast
    next
      case False
      then have "length pre < i" using ne by simp
      moreover have "xs ! length pre = p" using assms(1) by simp
      ultimately show False using assms(3,6) by auto
    qed
  qed
  then show ?thesis using assms(1) by simp
qed

lemma findMRVCell_zero:
  assumes "i < 81" "length (candidates b (all_cells ! i)) = 0"
    and "\<forall>j<i. length (candidates b (all_cells ! j)) \<noteq> 0"
  shows "findMRVCell b = Inr (all_cells ! i, 0)"
proof -
  have i: "i < length all_cells" using assms(1) by (simp add: length_all_cells)
  have split: "all_cells = take i all_cells @ all_cells ! i # drop (Suc i) all_cells"
    using i by (rule id_take_nth_drop)
  have "\<forall>q\<in>set (take i all_cells). length (candidates b q) \<noteq> 0"
    using assms(3) i by (auto simp add: in_set_conv_nth)
  then have "findMRVCell_scan b (take i all_cells @ all_cells ! i # drop (Suc i) all_cells) (GPos 0 0) 10
      = Inr (Inl (all_cells ! i, 0))"
    using assms(2) by (rule findMRVCell_scan_zero)
  then have "findMRVCell_scan b all_cells (GPos 0 0) 10 = Inr (Inl (all_cells ! i, 0))"
    using split by simp
  then show ?thesis by (simp add: findMRVCell_def)
qed

lemma findMRVCell_nonzero:
  assumes "\<forall>j<81. length (candidates b (all_cells ! j)) \<noteq> 0"
  obtains bp bc where "fold (mrv_step b) all_cells (GPos 0 0, 10) = (bp, bc)"
    and "findMRVCell b = (if bc = 10 then Inl runtime_error else Inr (bp, bc))"
proof -
  have nz: "\<forall>q\<in>set all_cells. length (candidates b q) \<noteq> 0"
    using assms by (auto simp add: in_set_conv_nth length_all_cells)
  obtain bp bc where f: "fold (mrv_step b) all_cells (GPos 0 0, 10) = (bp, bc)"
    by (cases "fold (mrv_step b) all_cells (GPos 0 0, 10)")
  have "findMRVCell b = (if bc = 10 then Inl runtime_error else Inr (bp, bc))"
    by (simp add: findMRVCell_def findMRVCell_scan_fold [OF nz] f)
  then show ?thesis using f that by blast
qed

lemma findMRVCell_min:
  assumes nz: "\<forall>j<81. length (candidates b (all_cells ! j)) \<noteq> 0"
    and i: "i < 81" and c: "length (candidates b (all_cells ! i)) = c" "2 \<le> c"
    and least: "\<forall>j<81. 2 \<le> length (candidates b (all_cells ! j)) \<longrightarrow> c \<le> length (candidates b (all_cells ! j))"
    and first: "\<forall>j<i. length (candidates b (all_cells ! j)) \<noteq> c"
  shows "findMRVCell b = Inr (all_cells ! i, c)"
proof -
  obtain bp bc where f: "fold (mrv_step b) all_cells (GPos 0 0, 10) = (bp, bc)"
    and r: "findMRVCell b = (if bc = 10 then Inl runtime_error else Inr (bp, bc))"
    using findMRVCell_nonzero [OF nz] by blast
  note inv = mrv_fold [OF f]
  have il: "i < length all_cells" using i by (simp add: length_all_cells)
  then have mem: "all_cells ! i \<in> set all_cells" by simp
  have "bc \<le> c" using inv mem c by auto
  moreover have "c \<le> 9" using c(1) candidates_le9 [of b "all_cells ! i"] by simp
  ultimately have ne: "bc \<noteq> 10" by simp
  then obtain pre post where sp: "all_cells = pre @ bp # post" and cb: "length (candidates b bp) = bc"
      and pre: "\<forall>q\<in>set pre. length (candidates b q) \<noteq> bc" and b1: "1 < bc"
    using inv by auto
  have "bp \<in> set all_cells" using sp by (metis in_set_conv_decomp)
  then obtain k where k: "k < 81" "all_cells ! k = bp"
    by (auto simp add: in_set_conv_nth length_all_cells)
  have "c \<le> bc" using least k cb b1 by auto
  then have bc: "bc = c" using \<open>bc \<le> c\<close> by simp
  have "all_cells ! i = bp"
    using sp pre cb il c(1) first unfolding bc
    by (intro first_index_unique [where P = "\<lambda>q. length (candidates b q) = c" and pre = pre and post = post]) auto
  then show ?thesis using r ne bc by simp
qed

lemma findMRVCell_all_one:
  assumes "\<forall>j<81. length (candidates b (all_cells ! j)) = 1"
  shows "findMRVCell b = Inl runtime_error"
proof -
  have nz: "\<forall>j<81. length (candidates b (all_cells ! j)) \<noteq> 0" using assms by simp
  obtain bp bc where f: "fold (mrv_step b) all_cells (GPos 0 0, 10) = (bp, bc)"
    and r: "findMRVCell b = (if bc = 10 then Inl runtime_error else Inr (bp, bc))"
    using findMRVCell_nonzero [OF nz] by blast
  note inv = mrv_fold [OF f]
  have "bc = 10"
  proof (rule ccontr)
    assume "bc \<noteq> 10"
    then obtain pre post where sp: "all_cells = pre @ bp # post" and cb: "length (candidates b bp) = bc"
      and b1: "1 < bc"
      using inv by auto
    have "bp \<in> set all_cells" using sp by (metis in_set_conv_decomp)
    then obtain k where k: "k < 81" "all_cells ! k = bp"
      by (auto simp add: in_set_conv_nth length_all_cells)
    then show False using assms cb b1 by auto
  qed
  then show ?thesis using r by simp
qed

text \<open>What the caller of \<^verbatim>\<open>findMRVCell\<close> knows about a cell returned with a count other than 0.\<close>

lemma findMRVCell_branching:
  assumes "findMRVCell b = Inr (pos, cnt)" "cnt \<noteq> 0"
  shows "valid_pos pos \<and> cnt = length (candidates b pos) \<and> 2 \<le> cnt"
proof (cases "\<forall>j<81. length (candidates b (all_cells ! j)) \<noteq> 0")
  case False
  then have "\<exists>i. (i < 81 \<and> length (candidates b (all_cells ! i)) = 0)" by blast
  then obtain i where i: "i < 81 \<and> length (candidates b (all_cells ! i)) = 0"
    and m: "\<forall>j<i. \<not> (j < 81 \<and> length (candidates b (all_cells ! j)) = 0)"
    using exists_least_iff [of "\<lambda>i. i < 81 \<and> length (candidates b (all_cells ! i)) = 0"] by blast
  have "\<forall>j<i. length (candidates b (all_cells ! j)) \<noteq> 0" using m i by auto
  then have "findMRVCell b = Inr (all_cells ! i, 0)" using i findMRVCell_zero by blast
  then show ?thesis using assms by simp
next
  case True
  obtain bp bc where f: "fold (mrv_step b) all_cells (GPos 0 0, 10) = (bp, bc)"
    and r: "findMRVCell b = (if bc = 10 then Inl runtime_error else Inr (bp, bc))"
    using findMRVCell_nonzero [OF True] by blast
  note inv = mrv_fold [OF f]
  have ne: "bc \<noteq> 10" and eq: "bp = pos" "bc = cnt" using r assms(1) by (auto split: if_splits)
  then obtain pre post where sp: "all_cells = pre @ bp # post" and cb: "length (candidates b bp) = bc"
      and b1: "1 < bc"
    using inv by auto
  have "bp \<in> set all_cells" using sp by (metis in_set_conv_decomp)
  then show ?thesis using eq cb b1 by (simp add: set_all_cells)
qed


lemma concat_rows_nth:
  "i < m * n \<Longrightarrow> concat (map (\<lambda>y. map (\<lambda>x. f x y) [0..<n]) [0..<m]) ! i = f (i mod n) (i div n)"
proof (induction m)
  case 0
  then show ?case by simp
next
  case (Suc m)
  have len: "length (concat (map (\<lambda>y. map (\<lambda>x. f x y) [0..<n]) [0..<m])) = m * n"
    by (induction m) simp_all
  show ?case
  proof (cases "i < m * n")
    case True
    then show ?thesis using Suc.IH len by (simp add: nth_append)
  next
    case False
    then have ge: "m * n \<le> i" by simp
    have lt: "i - m * n < n" using Suc.prems ge by simp
    have n: "0 < n" using lt by simp
    have i: "(i - m * n) + m * n = i" using ge by simp
    have "((i - m * n) + m * n) div n = m" using n lt by simp
    then have "i div n = m" by (simp only: i)
    moreover have "((i - m * n) + m * n) mod n = i - m * n" using lt by simp
    then have "i mod n = i - m * n" by (simp only: i)
    ultimately show ?thesis using False len lt by (simp add: nth_append)
  qed
qed

lemma all_cells_nth: "i < 81 \<Longrightarrow> all_cells ! i = GPos (i mod 9) (i div 9)"
  unfolding all_cells_def by (rule concat_rows_nth) simp

text \<open>The count of the cell with the row-major index \<open>j\<close>, that is \<open>x = j mod 9\<close>, \<open>y = j div 9\<close>.\<close>

definition count_at :: "SudokuBoard \<Rightarrow> nat \<Rightarrow> error + nat" where
  "count_at b j = getPossiblesCountAt b (GPos (j mod 9) (j div 9))"

lemma count_at_eq: "j < 81 \<Longrightarrow> count_at b j = Inr (length (candidates b (all_cells ! j)))"
  by (simp add: count_at_def getPossiblesCountAt_eq all_cells_nth)

definition one_board :: SudokuBoard where
  "one_board = tboard (replicate 9 (replicate 9 (True # replicate 8 False)))"

lemma candidates_one_board:
  assumes "j < 81"
  shows "candidates one_board (GPos (j mod 9) (j div 9)) = [1]"
proof -
  have x: "j mod 9 < 9" and y: "j div 9 < 9" using assms by simp_all
  have "cand one_board (GPos (j mod 9) (j div 9)) v = (v = 1)" if "v \<in> set [1..<10]" for v
  proof -
    have v: "valid_val v" using that by (simp only: valid_val_upt)
    then have "v - 1 < 9" by (auto simp add: valid_val_def)
    then show ?thesis
      using cand_tboard [OF x y v] x y v
      by (cases "v - 1") (auto simp add: one_board_def valid_val_def)
  qed
  then have "candidates one_board (GPos (j mod 9) (j div 9)) = filter (\<lambda>v. v = 1) [1..<10]"
    unfolding candidates_def by (intro filter_cong) auto
  then show ?thesis using filter_eq_single [of "[1..<10]" 1] by simp
qed

lemma candidates_default: "candidates SudokuBoard_default p = [1..<10]"
  by (simp add: candidates_def cand_default)

lemma cell_index_inj:
  assumes "j < 81" "GPos (j mod 9) (j div 9) = GPos x y"
  shows "j = x + 9 * y"
  using assms div_mult_mod_eq [of j 9] by auto

lemma valid_cell_index: "j < 81 \<Longrightarrow> valid_pos (GPos (j mod 9) (j div 9))"
  by (simp add: valid_pos_def)

section \<open>The depth-first search\<close>

text \<open>
  The state that \<^verbatim>\<open>dfsSolve\<close> works on: the board, the vector \<open>path\<close> and the array
  \<open>assigned\<close> (81 entries, indexed by \<open>x + 9 * y\<close>) that it receives by reference, and
  the state of the observer of its three listeners.
\<close>

record 's dfs =
  dfs_board :: SudokuBoard
  dfs_path :: "nat list"
  dfs_assigned :: "bool list"
  dfs_obs :: 's

type_synonym 's assignListener = "nat list \<Rightarrow> bool list \<Rightarrow> GPos \<Rightarrow> 's \<Rightarrow> 's"
type_synonym 's dfsSimplifyListener =
  "nat list \<Rightarrow> nat \<Rightarrow> nat \<Rightarrow> nat \<Rightarrow> bool \<Rightarrow> bool list \<Rightarrow> 's \<Rightarrow> 's"
type_synonym 's dfsEliminateListener =
  "nat list \<Rightarrow> SimplificationCause \<Rightarrow> GPos \<Rightarrow> nat \<Rightarrow> nat \<Rightarrow> 's \<Rightarrow> 's"

text \<open>
  The body of the loop over the candidates, for the candidate \<open>v\<close>: snapshot, trial
  assignment, \<open>path.push_back\<close>, the assign listener, the recursive call \<open>recurse\<close>, and
  after a failed call \<open>path.pop_back\<close> and the restore of the snapshot.
\<close>

definition dfs_try ::
  "('s dfs \<Rightarrow> error + (bool \<times> 's dfs)) \<Rightarrow> 's assignListener \<Rightarrow> GPos \<Rightarrow> nat \<Rightarrow> nat \<Rightarrow> 's dfs
     \<Rightarrow> error + (bool \<times> 's dfs)" where
  "dfs_try recurse assignListener pos v branchIndex st =
     (let history = copyData (dfs_board st) in
      bindE (makeSureAt (dfs_board st) pos v False) (\<lambda>b.
        let path = dfs_path st @ [branchIndex];
            st1 = st\<lparr>dfs_board := b, dfs_path := path,
                     dfs_obs := assignListener path (dfs_assigned st) pos (dfs_obs st)\<rparr>
        in bindE (recurse st1) (\<lambda>(found, st2).
             if found then Inr (True, st2)
             else Inr (False, st2\<lparr>dfs_path := butlast (dfs_path st2),
                                   dfs_board := SudokuBoard_of history\<rparr>))))"

text \<open>The loop \<^verbatim>\<open>for (uc v : candidates)\<close> with its counter \<open>branchIndex\<close>.\<close>

fun dfs_candidates ::
  "('s dfs \<Rightarrow> error + (bool \<times> 's dfs)) \<Rightarrow> 's assignListener \<Rightarrow> GPos \<Rightarrow> nat list \<Rightarrow> nat \<Rightarrow> 's dfs
     \<Rightarrow> error + (bool \<times> 's dfs)" where
  "dfs_candidates recurse assignListener pos [] branchIndex st = Inr (False, st)"
| "dfs_candidates recurse assignListener pos (v # vs) branchIndex st =
     bindE (dfs_try recurse assignListener pos v branchIndex st) (\<lambda>(found, st').
       if found then Inr (True, st')
       else dfs_candidates recurse assignListener pos vs (branchIndex + 1) st')"

lemma SudokuBoard_of_copyData [simp]: "SudokuBoard_of (copyData b) = b"
  by (simp add: SudokuBoard_of_def copyData_def)

lemma dfs_try_cong:
  assumes "\<And>x. dfs_board x = makeSure (dfs_board st) pos v False \<Longrightarrow> recurse x = recurse' x"
  shows "dfs_try recurse aL pos v bi st = dfs_try recurse' aL pos v bi st"
  unfolding dfs_try_def Let_def makeSureAt_eq bindE_Inr
  by (subst assms) simp_all

lemma dfs_try_board:
  assumes "dfs_try recurse aL pos v bi st = Inr (False, st')"
  shows "dfs_board st' = dfs_board st"
  using assms unfolding dfs_try_def Let_def makeSureAt_eq bindE_Inr
  by (auto simp add: bindE_def split: sum.splits prod.splits if_splits)

lemma dfs_candidates_cong [fundef_cong]:
  assumes "aL = aL'" "pos = pos'" "vs = vs'" "bi = bi'" "st = st'"
    and "\<And>v x. v \<in> set vs' \<Longrightarrow> dfs_board x = makeSure (dfs_board st') pos' v False
           \<Longrightarrow> recurse x = recurse' x"
  shows "dfs_candidates recurse aL pos vs bi st = dfs_candidates recurse' aL' pos' vs' bi' st'"
proof -
  have "dfs_candidates recurse aL' pos' vs' bi' st' = dfs_candidates recurse' aL' pos' vs' bi' st'"
    using assms(6)
  proof (induction vs' arbitrary: bi' st')
    case Nil
    then show ?case by simp
  next
    case (Cons v vs)
    have t: "dfs_try recurse aL' pos' v bi' st' = dfs_try recurse' aL' pos' v bi' st'"
      by (rule dfs_try_cong) (rule Cons.prems, simp_all)
    show ?case
    proof (cases "dfs_try recurse' aL' pos' v bi' st'")
      case (Inl e)
      then show ?thesis using t by simp
    next
      case (Inr r)
      obtain found st2 where r: "r = (found, st2)" by (cases r)
      show ?thesis
      proof (cases found)
        case True
        then show ?thesis using t Inr r by simp
      next
        case False
        then have "dfs_try recurse' aL' pos' v bi' st' = Inr (False, st2)" using Inr r by simp
        then have bd: "dfs_board st2 = dfs_board st'" by (rule dfs_try_board)
        have "dfs_candidates recurse aL' pos' vs (bi' + 1) st2 =
            dfs_candidates recurse' aL' pos' vs (bi' + 1) st2"
        proof (rule Cons.IH)
          fix w and x :: "'a dfs"
          assume "w \<in> set vs" "dfs_board x = makeSure (dfs_board st2) pos' w False"
          then show "recurse x = recurse' x" using Cons.prems [of w x] bd by simp
        qed
        then show ?thesis using t Inr r False by simp
      qed
    qed
  qed
  then show ?thesis using assms(1-5) by simp
qed

text \<open>A trial assignment at a cell with two candidates or more clears a flag.\<close>

lemma distinct_candidates: "distinct (candidates b p)"
  by (simp add: candidates_def)

lemma trial_decreases:
  assumes "valid_pos pos" "2 \<le> length (candidates b pos)" "v \<in> set (candidates b pos)"
  shows "nflags (makeSure b pos v False) < nflags b"
proof -
  have "\<exists>w \<in> set (candidates b pos). w \<noteq> v"
  proof (rule ccontr)
    assume "\<not> (\<exists>w \<in> set (candidates b pos). w \<noteq> v)"
    then have "set (candidates b pos) \<subseteq> {v}" by auto
    then have "card (set (candidates b pos)) \<le> 1"
      using card_mono [of "{v}" "set (candidates b pos)"] by simp
    then show False using assms(2) distinct_card [OF distinct_candidates, of b pos] by simp
  qed
  then obtain w where w: "w \<in> set (candidates b pos)" "w \<noteq> v" by blast
  then have "(pos, w) \<in> flags b" using assms(1) by (simp add: flags_def candidates_iff)
  moreover have "(pos, w) \<notin> flags (makeSure b pos v False)"
    using w by (simp add: flags_makeSure_off [OF assms(1)])
  moreover have "flags (makeSure b pos v False) \<subseteq> flags b"
    by (auto simp add: flags_makeSure_off [OF assms(1)])
  ultimately show ?thesis by (intro nflags_less) auto
qed

lemma simplifyToTheEnd_flags:
  assumes "simplifyToTheEnd sL eL b s = Inr (ok, t, b', s', ps)"
  shows "flags b' \<subseteq> flags b"
  using simplifyToTheEnd_loop_result [of sL eL 0 0 "[]" b s] assms
  by (auto simp add: simplifyToTheEnd_def)

text \<open>
  The private \<^verbatim>\<open>dfsSolve\<close> with the parameters \<open>board\<close> and \<open>isFirst\<close>. It is a member
  function that is only ever called with \<open>board = *this\<close>, so \<^verbatim>\<open>getCandiatesAt(pos)\<close>
  reads the board it works on. The listeners given to \<^verbatim>\<open>simplifyToTheEnd\<close> are the
  wrappers that add \<open>path\<close>, \<open>isFirst\<close> and \<open>assigned\<close>. A listener receives constant
  references and returns nothing: it is a function from its arguments and the state of the
  observer to the state of the observer. The result is the returned \<^verbatim>\<open>bool\<close> with the
  state left behind: on \<^verbatim>\<open>true\<close> the path and the marks in \<open>assigned\<close> stay, on
  \<^verbatim>\<open>false\<close> after the loop the mark of the cell is removed.
\<close>

function dfsSolve ::
  "'s assignListener \<Rightarrow> 's dfsSimplifyListener \<Rightarrow> 's dfsEliminateListener \<Rightarrow> bool \<Rightarrow> 's dfs
     \<Rightarrow> error + (bool \<times> 's dfs)" where
  "dfsSolve assignListener simplifyListener eliminateListener isFirst st =
     bindE (simplifyToTheEnd
              (\<lambda>i elim elimSum. simplifyListener (dfs_path st) i elim elimSum isFirst (dfs_assigned st))
              (\<lambda>cause cell v w. eliminateListener (dfs_path st) cause cell v w)
              (dfs_board st) (dfs_obs st))
       (\<lambda>(ok, totalEliminations, b, s, passes).
          if \<not> ok then Inr (False, st\<lparr>dfs_board := b, dfs_obs := s\<rparr>)
          else bindE (isSolved b) (\<lambda>solved.
            if solved then Inr (True, st\<lparr>dfs_board := b, dfs_obs := s\<rparr>)
            else bindE (findMRVCell b) (\<lambda>(pos, cnt).
              if cnt = 0 then Inr (False, st\<lparr>dfs_board := b, dfs_obs := s\<rparr>)
              else bindE (getCandiatesAt b pos) (\<lambda>candidates.
                bindE (dfs_candidates (dfsSolve assignListener simplifyListener eliminateListener False)
                         assignListener pos candidates 0
                         (st\<lparr>dfs_board := b, dfs_obs := s,
                             dfs_assigned := (dfs_assigned st)[getX pos + 9 * getY pos := True]\<rparr>))
                  (\<lambda>(found, st').
                     if found then Inr (True, st')
                     else Inr (False, st'\<lparr>dfs_assigned :=
                                 (dfs_assigned st')[getX pos + 9 * getY pos := False]\<rparr>))))))"
  by pat_completeness auto
termination
proof (relation "measure (\<lambda>(aL, sL, eL, isFirst, st). nflags (dfs_board st))")
  show "wf (measure (\<lambda>(aL, sL, eL, isFirst, st). nflags (dfs_board st)))" by simp
next
  fix aL :: "'s assignListener" and sL :: "'s dfsSimplifyListener" and eL :: "'s dfsEliminateListener"
    and isFirst :: bool and st :: "'s dfs" and r ok r2 tot r3 b r4 s passes solved pc pos cnt
    and candidates' v and x :: "'s dfs"
  assume fx: "simplifyToTheEnd (\<lambda>i elim elimSum. sL (dfs_path st) i elim elimSum isFirst (dfs_assigned st))
          (\<lambda>cause cell v w. eL (dfs_path st) cause cell v w) (dfs_board st) (dfs_obs st) = Inr r"
    and r: "(ok, r2) = r" "(tot, r3) = r2" "(b, r4) = r3" "(s, passes) = r4"
    and "\<not> \<not> ok" and "isSolved b = Inr solved" and "\<not> solved"
    and mrv: "findMRVCell b = Inr pc" "(pos, cnt) = pc" "cnt \<noteq> 0"
    and cs: "getCandiatesAt b pos = Inr candidates'"
    and v: "v \<in> set candidates'"
    and x: "dfs_board x = makeSure (dfs_board (st\<lparr>dfs_board := b, dfs_obs := s,
               dfs_assigned := (dfs_assigned st)[getX pos + 9 * getY pos := True]\<rparr>)) pos v False"
  have "simplifyToTheEnd (\<lambda>i elim elimSum. sL (dfs_path st) i elim elimSum isFirst (dfs_assigned st))
          (\<lambda>cause cell v w. eL (dfs_path st) cause cell v w) (dfs_board st) (dfs_obs st) =
        Inr (ok, tot, b, s, passes)"
    using fx r by auto
  then have "flags b \<subseteq> flags (dfs_board st)"
    by (rule simplifyToTheEnd_flags)
  then have 1: "nflags b \<le> nflags (dfs_board st)" by (rule nflags_mono)
  have m: "valid_pos pos \<and> cnt = length (candidates b pos) \<and> 2 \<le> cnt"
    using findMRVCell_branching [of b pos cnt] mrv by simp
  have "v \<in> set (candidates b pos)" using cs v by (simp add: getCandiatesAt_eq)
  then have "nflags (makeSure b pos v False) < nflags b"
    using m by (intro trial_decreases) simp_all
  then show "((aL, sL, eL, False, x), aL, sL, eL, isFirst, st)
      \<in> measure (\<lambda>(aL, sL, eL, isFirst, st). nflags (dfs_board st))"
    using 1 x by simp
qed




lemma isSolved_cells_eq:
  "isSolved_cells b cells = Inr (\<forall>p\<in>set cells. length (candidates b p) = 1)"
  by (induction cells) (simp_all add: getCellInfoAt_eq)

lemma isSolved_eq: "isSolved b = Inr (\<forall>p\<in>set all_cells. length (candidates b p) = 1)"
  by (simp add: isSolved_def isSolved_cells_eq)


declare dfsSolve.simps [simp del]

lemma dfsSolve_step:
  assumes "simplifyToTheEnd
      (\<lambda>i elim elimSum. sL (dfs_path st) i elim elimSum isFirst (dfs_assigned st))
      (\<lambda>cause cell v w. eL (dfs_path st) cause cell v w) (dfs_board st) (dfs_obs st) =
    Inr (ok, t, b, s, ps)"
  shows "dfsSolve aL sL eL isFirst st =
     (if \<not> ok then Inr (False, st\<lparr>dfs_board := b, dfs_obs := s\<rparr>)
      else if (\<forall>p\<in>set all_cells. length (candidates b p) = 1)
        then Inr (True, st\<lparr>dfs_board := b, dfs_obs := s\<rparr>)
      else bindE (findMRVCell b) (\<lambda>(pos, cnt).
        if cnt = 0 then Inr (False, st\<lparr>dfs_board := b, dfs_obs := s\<rparr>)
        else bindE (dfs_candidates (dfsSolve aL sL eL False) aL pos (candidates b pos) 0
                      (st\<lparr>dfs_board := b, dfs_obs := s,
                          dfs_assigned := (dfs_assigned st)[getX pos + 9 * getY pos := True]\<rparr>))
               (\<lambda>(found, st').
                  if found then Inr (True, st')
                  else Inr (False, st'\<lparr>dfs_assigned :=
                              (dfs_assigned st')[getX pos + 9 * getY pos := False]\<rparr>))))"
  by (subst dfsSolve.simps, cases "findMRVCell b")
     (auto simp add: assms isSolved_eq getCandiatesAt_eq split: prod.splits)

subsection \<open>Two searches with different listeners\<close>





lemma simplifyToTheEnd_same:
  "\<exists>ok t b' s1 s2 ps. simplifyToTheEnd sL eL b s = Inr (ok, t, b', s1, ps) \<and>
     simplifyToTheEnd sL' eL' b s' = Inr (ok, t, b', s2, ps)"
proof -
  obtain ok t b1 s1 ps where 1: "simplifyToTheEnd_loop sL eL 0 0 [] b s = Inr (ok, t, b1, s1, ps)"
    using simplifyToTheEnd_loop_result [of sL eL 0 0 "[]" b s] by auto
  obtain ok' t' b1' s1' ps' where
    2: "simplifyToTheEnd_loop sL' eL' 0 0 [] b s' = Inr (ok', t', b1', s1', ps')"
    using simplifyToTheEnd_loop_result [of sL' eL' 0 0 "[]" b s'] by auto
  have "rel_sum (=) (rel_fix (\<lambda>_ _. True)) (simplifyToTheEnd_loop sL eL 0 0 [] b s)
           (simplifyToTheEnd_loop sL' eL' 0 0 [] b s')"
    by (rule simplifyToTheEnd_loop_rel) (simp_all add: rel_listener3_def rel_listener_def)
  then have "ok' = ok \<and> t' = t \<and> b1' = b1 \<and> ps' = ps"
    using 1 2 by (simp add: rel_fix_def)
  then show ?thesis using 1 2 by (simp add: simplifyToTheEnd_def)
qed





text \<open>Listeners of \<^verbatim>\<open>dfsSolve\<close> that record the passes and nothing else.\<close>

definition record_search_pass :: "(nat \<times> nat \<times> nat) list dfsSimplifyListener" where
  "record_search_pass path = (\<lambda>index eliminated eliminatedSum isFirst assigned.
     record_pass index eliminated eliminatedSum)"

definition ignore_assign :: "'s assignListener" where
  "ignore_assign path assigned justAssigned s = s"

definition ignore_search_elimination :: "'s dfsEliminateListener" where
  "ignore_search_elimination path = ignore_elimination"

lemma failing_branch_eval:
  "bindE (makeSureAt SudokuBoard_default (GPos 1 0) 1 False) (\<lambda>b0.
     bindE (makeSureAt b0 (GPos 0 0) 1 False) (\<lambda>b.
       bindE (simplifyToTheEnd record_pass ignore_elimination b [])
         (\<lambda>(ok, total, b', log, passes).
            Inr (ok, total, count_flags b0, count_flags b, count_flags b', log, passes)))) =
   Inr (False, 20, 721, 713, 693, [(0, 20, 20)], [20])"
  by (simp only: fix_only cong: if_weak_cong bindE_cong_weak prod.case_cong_weak)

lemma failing_branch:
  fixes path :: "nat list" and assigned :: "bool list"
  defines "b0 \<equiv> makeSure SudokuBoard_default (GPos 1 0) 1 False"
  shows "\<exists>b'. nflags b0 = 721 \<and> nflags b' = 693 \<and>
     dfsSolve ignore_assign record_search_pass ignore_search_elimination False
       \<lparr>dfs_board = makeSure b0 (GPos 0 0) 1 False, dfs_path = path, dfs_assigned = assigned,
        dfs_obs = []\<rparr> =
     Inr (False, \<lparr>dfs_board = b', dfs_path = path, dfs_assigned = assigned,
                  dfs_obs = [(0, 20, 20)]\<rparr>)"
proof -
  let ?b = "makeSure b0 (GPos 0 0) 1 False"
  let ?x = "\<lparr>dfs_board = ?b, dfs_path = path, dfs_assigned = assigned,
             dfs_obs = ([] :: (nat \<times> nat \<times> nat) list)\<rparr>"
  obtain ok t b' log ps where
    fx: "simplifyToTheEnd record_pass ignore_elimination ?b [] = Inr (ok, t, b', log, ps)"
    using simplifyToTheEnd_same [of record_pass ignore_elimination ?b "[]"
        record_pass ignore_elimination "[]"] by blast
  have v: "ok = False" "count_flags b0 = 721" "count_flags b' = 693" "log = [(0, 20, 20)]"
    using failing_branch_eval fx by (simp_all add: makeSureAt_eq b0_def)
  have fx': "simplifyToTheEnd
      (\<lambda>i elim elimSum. record_search_pass (dfs_path ?x) i elim elimSum False (dfs_assigned ?x))
      (\<lambda>cause cell v w. ignore_search_elimination (dfs_path ?x) cause cell v w)
      (dfs_board ?x) (dfs_obs ?x) = Inr (ok, t, b', log, ps)"
    using fx by (simp add: record_search_pass_def ignore_search_elimination_def)
  have "dfsSolve ignore_assign record_search_pass ignore_search_elimination False ?x =
     Inr (False, ?x\<lparr>dfs_board := b', dfs_obs := log\<rparr>)"
    using dfsSolve_step [where st = ?x and sL = record_search_pass
        and eL = ignore_search_elimination and isFirst = False and aL = ignore_assign, OF fx'] v(1)
    by simp
  then show ?thesis using v by (auto simp add: nflags_count)
qed

section \<open>The claims\<close>

text \<open>
  The theorems below are about cells of the grid (\<open>valid_pos\<close>): for any other
  position the source reads and writes outside its array.
\<close>

subsection \<open>C1\<close>

text \<open>
  C1. For every position and every value \<open>v\<close> from 1 to 9, \<^verbatim>\<open>makeSureAt\<close> with
  \<open>force = true\<close> leaves the cell with exactly one candidate, \<open>v\<close>; with
  \<open>force = false\<close> it leaves the only candidate \<open>v\<close> if \<open>v\<close> was possible before, and no
  candidate at all otherwise.
\<close>

theorem makeSureAt_force_semantics:
  assumes "valid_pos pos" and "1 \<le> v" and "v \<le> 9"
  shows "(\<exists>b'. makeSureAt b pos v True = Inr b' \<and>
            getPossiblesCountAt b' pos = Inr 1 \<and> getOnlyPossibleValue b' pos = Inr v) \<and>
         (\<exists>b'. makeSureAt b pos v False = Inr b' \<and>
            (if isPossibleAt b pos v = Inr True
             then getPossiblesCountAt b' pos = Inr 1 \<and> getOnlyPossibleValue b' pos = Inr v
             else getPossiblesCountAt b' pos = Inr 0))"
proof -
  have v: "valid_val v" using assms by (simp add: valid_val_def)
  show ?thesis
    using v assms(1)
    by (simp add: makeSureAt_eq getPossiblesCountAt_eq getOnlyPossibleValue_eq
        candidates_makeSure_self isPossibleAt_cand)
qed

theorem makeSureAt_force_semantics_witness:
  "valid_pos (GPos 4 4) \<and> (1::nat) \<le> 5 \<and> (5::nat) \<le> 9 \<and>
   isPossibleAt SudokuBoard_default (GPos 4 4) 5 = Inr True \<and>
   (\<exists>b'. makeSureAt SudokuBoard_default (GPos 4 4) 5 True = Inr b' \<and>
      getPossiblesCountAt b' (GPos 4 4) = Inr 1 \<and> getOnlyPossibleValue b' (GPos 4 4) = Inr 5) \<and>
   (\<exists>b'. makeSureAt SudokuBoard_default (GPos 4 4) 5 False = Inr b' \<and>
      getPossiblesCountAt b' (GPos 4 4) = Inr 1 \<and> getOnlyPossibleValue b' (GPos 4 4) = Inr 5) \<and>
   isPossibleAt (snd (setPossibleAt SudokuBoard_default (GPos 4 4) 5 False)) (GPos 4 4) 5 = Inr False \<and>
   (\<exists>b'. makeSureAt (snd (setPossibleAt SudokuBoard_default (GPos 4 4) 5 False)) (GPos 4 4) 5 False = Inr b' \<and>
      getPossiblesCountAt b' (GPos 4 4) = Inr 0)"
proof -
  have p: "valid_pos (GPos 4 4)" by (simp add: valid_pos_def)
  have v: "valid_val 5" by (simp add: valid_val_def)
  have on: "isPossibleAt SudokuBoard_default (GPos 4 4) 5 = Inr True"
    by (simp add: isPossibleAt_cand [OF v] cand_default)
  have off: "isPossibleAt (snd (setPossibleAt SudokuBoard_default (GPos 4 4) 5 False)) (GPos 4 4) 5 = Inr False"
    by (simp add: isPossibleAt_cand [OF v] setPossibleAt_eq [OF v] cand_setP_same)
  show ?thesis
    using makeSureAt_force_semantics [OF p, of 5 SudokuBoard_default]
      makeSureAt_force_semantics [OF p, of 5 "snd (setPossibleAt SudokuBoard_default (GPos 4 4) 5 False)"]
      p on off
    by simp
qed

subsection \<open>C6\<close>

text \<open>
  C6. \<^verbatim>\<open>isPossibleAt\<close> and \<^verbatim>\<open>setPossibleAt\<close> raise the out-of-range error if and
  only if the value is outside 1..9 (and return normally otherwise); when
  \<^verbatim>\<open>setPossibleAt\<close> raises, the board is as it was; for a value in 1..9 it returns
  true exactly when the state of the flag has changed, and the flag then has the
  requested state.
\<close>

theorem possibleAt_range_check:
  assumes "valid_pos pos"
  shows "(isPossibleAt b pos v = Inl invalid_argument \<longleftrightarrow> \<not> (1 \<le> v \<and> v \<le> 9)) \<and>
   ((\<exists>r. isPossibleAt b pos v = Inr r) \<longleftrightarrow> 1 \<le> v \<and> v \<le> 9) \<and>
   (fst (setPossibleAt b pos v on) = Inl invalid_argument \<longleftrightarrow> \<not> (1 \<le> v \<and> v \<le> 9)) \<and>
   ((\<exists>r. fst (setPossibleAt b pos v on) = Inr r) \<longleftrightarrow> 1 \<le> v \<and> v \<le> 9) \<and>
   (\<not> (1 \<le> v \<and> v \<le> 9) \<longrightarrow> snd (setPossibleAt b pos v on) = b) \<and>
   (1 \<le> v \<and> v \<le> 9 \<longrightarrow>
      (\<exists>changed. fst (setPossibleAt b pos v on) = Inr changed \<and>
         (changed \<longleftrightarrow> isPossibleAt (snd (setPossibleAt b pos v on)) pos v \<noteq> isPossibleAt b pos v) \<and>
         (changed \<longleftrightarrow> snd (setPossibleAt b pos v on) \<noteq> b) \<and>
         isPossibleAt (snd (setPossibleAt b pos v on)) pos v = Inr on))"
proof (cases "valid_val v")
  case True
  then have r: "1 \<le> v \<and> v \<le> 9" by (simp add: valid_val_def)
  have neq: "setP b pos v on \<noteq> b" if "cand b pos v \<noteq> on"
    using that cand_setP_same [of b pos v on] by auto
  have same: "setP b pos v on = b" if "cand b pos v = on"
    using that by (simp add: setP_def)
  show ?thesis
    using True r neq same
    by (auto simp add: setPossibleAt_eq isPossibleAt_cand cand_setP_same)
next
  case False
  then have r: "\<not> (1 \<le> v \<and> v \<le> 9)" by (simp add: valid_val_def)
  show ?thesis
    using False r by (simp add: setPossibleAt_invalid isPossibleAt_invalid)
qed

theorem possibleAt_range_check_witness:
  "valid_pos (GPos 8 8) \<and>
   isPossibleAt SudokuBoard_default (GPos 8 8) 10 = Inl invalid_argument \<and>
   fst (setPossibleAt SudokuBoard_default (GPos 8 8) 10 False) = Inl invalid_argument \<and>
   snd (setPossibleAt SudokuBoard_default (GPos 8 8) 10 False) = SudokuBoard_default \<and>
   isPossibleAt SudokuBoard_default (GPos 8 8) 9 = Inr True \<and>
   fst (setPossibleAt SudokuBoard_default (GPos 8 8) 9 False) = Inr True \<and>
   snd (setPossibleAt SudokuBoard_default (GPos 8 8) 9 False) \<noteq> SudokuBoard_default \<and>
   isPossibleAt (snd (setPossibleAt SudokuBoard_default (GPos 8 8) 9 False)) (GPos 8 8) 9 = Inr False"
proof -
  have p: "valid_pos (GPos 8 8)" by (simp add: valid_pos_def)
  have v: "valid_val 9" by (simp add: valid_val_def)
  have on: "isPossibleAt SudokuBoard_default (GPos 8 8) 9 = Inr True"
    by (simp add: isPossibleAt_cand [OF v] cand_default)
  show ?thesis
    using possibleAt_range_check [OF p, of SudokuBoard_default 10 False]
      possibleAt_range_check [OF p, of SudokuBoard_default 9 False] p on
    by auto
qed

subsection \<open>C10\<close>

text \<open>
  C10. \<^verbatim>\<open>makeSureAt\<close> with a value outside 1..9 raises no error, with or without
  \<open>force\<close>: it clears all nine flags of the cell, which is left without a candidate.
  \<^verbatim>\<open>isPossibleAt\<close> and \<^verbatim>\<open>setPossibleAt\<close> reject the same value and leave the
  board as it was.
\<close>

theorem makeSureAt_out_of_range_clears_cell:
  assumes "valid_pos pos" and "\<not> (1 \<le> v \<and> v \<le> 9)"
  shows "(\<exists>b'. makeSureAt b pos v force = Inr b' \<and> getPossiblesCountAt b' pos = Inr 0 \<and>
            getCandiatesAt b' pos = Inr []) \<and>
         isPossibleAt b pos v = Inl invalid_argument \<and>
         setPossibleAt b pos v on = (Inl invalid_argument, b)"
proof -
  have v: "\<not> valid_val v" using assms by (simp add: valid_val_def)
  show ?thesis
    using v assms(1)
    by (simp add: makeSureAt_eq getPossiblesCountAt_eq getCandiatesAt_eq
        candidates_makeSure_self isPossibleAt_invalid setPossibleAt_invalid)
qed

theorem makeSureAt_out_of_range_clears_cell_witness:
  "valid_pos (GPos 0 0) \<and> \<not> (1 \<le> (0::nat) \<and> (0::nat) \<le> 9) \<and> \<not> (1 \<le> (10::nat) \<and> (10::nat) \<le> 9) \<and>
   (\<exists>b'. makeSureAt SudokuBoard_default (GPos 0 0) 0 True = Inr b' \<and>
      getPossiblesCountAt b' (GPos 0 0) = Inr 0 \<and> getCandiatesAt b' (GPos 0 0) = Inr []) \<and>
   (\<exists>b'. makeSureAt SudokuBoard_default (GPos 0 0) 10 False = Inr b' \<and>
      getPossiblesCountAt b' (GPos 0 0) = Inr 0 \<and> getCandiatesAt b' (GPos 0 0) = Inr []) \<and>
   isPossibleAt SudokuBoard_default (GPos 0 0) 10 = Inl invalid_argument \<and>
   setPossibleAt SudokuBoard_default (GPos 0 0) 0 False = (Inl invalid_argument, SudokuBoard_default)"
proof -
  have p: "valid_pos (GPos 0 0)" by (simp add: valid_pos_def)
  show ?thesis
    using makeSureAt_out_of_range_clears_cell [OF p, of 0 SudokuBoard_default True False]
      makeSureAt_out_of_range_clears_cell [OF p, of 10 SudokuBoard_default False False] p
    by simp
qed

subsection \<open>C2\<close>



subsection \<open>C5\<close>

text \<open>
  C5: in every run of \<^verbatim>\<open>simplifyToTheEnd\<close> the simplify-pass listener is to be invoked
  once for each call of \<^verbatim>\<open>simplify\<close>, the last pass of a fixpoint run included, as
  the header documents (``Invokes simplifyListener after each pass''). The code does not:
  on the default board the only call of \<^verbatim>\<open>simplify\<close> eliminates nothing
  (\<open>passes = [0]\<close>), the loop is left before the listener is reached, and the recording
  listener has recorded no invocation. On the board whose cell \<open>(0, 0)\<close> is empty the only
  call of \<^verbatim>\<open>simplify\<close> eliminates nothing either, but reports the contradiction, and
  that pass is given to the listener as \<open>(0, 0, 0)\<close>.
\<close>

theorem fixpoint_pass_not_reported:
  "simplifyToTheEnd record_pass ignore_elimination SudokuBoard_default [] =
     Inr (True, 0, SudokuBoard_default, [], [0]) \<and>
   bindE (makeSureAt SudokuBoard_default (GPos 0 0) 0 False) (\<lambda>b.
     bindE (simplifyToTheEnd record_pass ignore_elimination b [])
       (\<lambda>(ok, total, b', log, passes). Inr (ok, total, log, passes))) =
     Inr (False, 0, [(0, 0, 0)], [0])"
  using default_fixpoint empty_cell_fixpoint by (rule conjI)

subsection \<open>C9\<close>

text \<open>
  C9. On the default board with the one clue 5 at \<open>(4, 4)\<close>, set by \<^verbatim>\<open>makeSureAt\<close>
  with \<open>force = true\<close>, the first call of \<^verbatim>\<open>simplify\<close> returns true and reports 20
  eliminations, whatever the listener; 721 flags are set before and 701 after.
\<close>

theorem single_clue_first_pass:
  "\<exists>b. makeSureAt SudokuBoard_default (GPos 4 4) 5 True = Inr b \<and>
     (\<exists>b' s'. simplify eventListener b s = Inr (True, 20, b', s') \<and>
        nflags b = 721 \<and> nflags b' = 701)"
  using single_clue_pass [of eventListener s] by blast

subsection \<open>C4\<close>

text \<open>
  C4 says that the count a pass reports is the number of flags it has cleared. The code
  adds \<open>cnt - 1\<close> at every firing of the hidden-single rule, with the count \<open>cnt\<close> read
  before the loop over the values. On the board with the eight clues 1 at
  \<open>(0,0), (3,1), (6,2), (1,3), (4,4), (7,5), (2,6), (5,7)\<close> the value 1 is a hidden single
  of the cell \<open>(8,8)\<close> in its row, its column and its chunk: the pass reports 96
  eliminations and clears 80 flags (665 are set before, 585 after).
\<close>

theorem hidden_single_counted_three_times:
  "\<exists>b. with_clues [(GPos 0 0, 1), (GPos 3 1, 1), (GPos 6 2, 1), (GPos 1 3, 1), (GPos 4 4, 1),
       (GPos 7 5, 1), (GPos 2 6, 1), (GPos 5 7, 1)] = Inr b \<and>
     (\<exists>b' s'. simplify eventListener b s = Inr (True, 96, b', s') \<and>
        nflags b = 665 \<and> nflags b' = 585)"
  using pass_of_eval [OF eight_ones_eval, of eventListener s] by blast

subsection \<open>C7\<close>

text \<open>
  Claim C7. \<^verbatim>\<open>findMRVCell\<close> is a function of the board state. With \<open>count_at b j\<close> the
  number of candidates of the cell of row-major index \<open>j\<close> (\<open>x = j mod 9\<close>, \<open>y = j div 9\<close>):
  if the cell \<open>i\<close> is the first one without a candidate, it is returned with the count 0;
  if no cell is without a candidate and the cell \<open>i\<close> is the first one that attains the least
  count \<open>c\<close> among the counts of at least 2, it is returned with \<open>c\<close>; if every cell has
  exactly one candidate, the call throws \<^verbatim>\<open>runtime_error\<close>; two boards with the same 729
  flags give the same result.
\<close>

theorem findMRVCell_choice:
  "(i < 81 \<and> count_at b i = Inr 0 \<and> (\<forall>j<i. count_at b j \<noteq> Inr 0)
      \<longrightarrow> findMRVCell b = Inr (GPos (i mod 9) (i div 9), 0)) \<and>
   ((\<forall>j<81. count_at b j \<noteq> Inr 0) \<and> i < 81 \<and> count_at b i = Inr c \<and> 2 \<le> c \<and>
    (\<forall>j<81. \<forall>c'. count_at b j = Inr c' \<and> 2 \<le> c' \<longrightarrow> c \<le> c') \<and> (\<forall>j<i. count_at b j \<noteq> Inr c)
      \<longrightarrow> findMRVCell b = Inr (GPos (i mod 9) (i div 9), c)) \<and>
   ((\<forall>j<81. count_at b j = Inr 1) \<longrightarrow> findMRVCell b = Inl runtime_error) \<and>
   (bitset b' = bitset b \<longrightarrow> findMRVCell b' = findMRVCell b)"
proof (intro conjI impI)
  assume a: "i < 81 \<and> count_at b i = Inr 0 \<and> (\<forall>j<i. count_at b j \<noteq> Inr 0)"
  then have "length (candidates b (all_cells ! i)) = 0"
    and "\<forall>j<i. length (candidates b (all_cells ! j)) \<noteq> 0"
    by (auto simp add: count_at_eq)
  then show "findMRVCell b = Inr (GPos (i mod 9) (i div 9), 0)"
    using findMRVCell_zero [of i b] a by (simp add: all_cells_nth)
next
  assume a: "(\<forall>j<81. count_at b j \<noteq> Inr 0) \<and> i < 81 \<and> count_at b i = Inr c \<and> 2 \<le> c \<and>
    (\<forall>j<81. \<forall>c'. count_at b j = Inr c' \<and> 2 \<le> c' \<longrightarrow> c \<le> c') \<and> (\<forall>j<i. count_at b j \<noteq> Inr c)"
  then have i: "i < 81" and c: "2 \<le> c" by simp_all
  have 1: "\<forall>j<81. length (candidates b (all_cells ! j)) \<noteq> 0"
    using a by (auto simp add: count_at_eq)
  have 2: "length (candidates b (all_cells ! i)) = c"
    using a by (auto simp add: count_at_eq)
  have 3: "\<forall>j<81. 2 \<le> length (candidates b (all_cells ! j)) \<longrightarrow> c \<le> length (candidates b (all_cells ! j))"
    using a by (auto simp add: count_at_eq)
  have 4: "\<forall>j<i. length (candidates b (all_cells ! j)) \<noteq> c"
    using a by (auto simp add: count_at_eq)
  show "findMRVCell b = Inr (GPos (i mod 9) (i div 9), c)"
    using findMRVCell_min [OF 1 i 2 c 3 4] i by (simp add: all_cells_nth)
next
  assume "\<forall>j<81. count_at b j = Inr 1"
  then have "\<forall>j<81. length (candidates b (all_cells ! j)) = 1"
    by (auto simp add: count_at_eq)
  then show "findMRVCell b = Inl runtime_error" by (rule findMRVCell_all_one)
next
  assume "bitset b' = bitset b"
  then have "b' = b" by simp
  then show "findMRVCell b' = findMRVCell b" by simp
qed

theorem findMRVCell_choice_witness:
  "bindE (makeSureAt SudokuBoard_default (GPos 1 0) 0 False) findMRVCell = Inr (GPos 1 0, 0) \<and>
   findMRVCell (snd (setPossibleAt SudokuBoard_default (GPos 2 0) 5 False)) = Inr (GPos 2 0, 8) \<and>
   findMRVCell one_board = Inl runtime_error \<and>
   findMRVCell (SudokuBoard_of (copyData one_board)) = findMRVCell one_board"
proof -
  let ?A = "makeSure SudokuBoard_default (GPos 1 0) 0 False"
  let ?B = "setP SudokuBoard_default (GPos 2 0) 5 False"
  have vp: "valid_pos (GPos 1 0)" "valid_pos (GPos 2 0)" by (simp_all add: valid_pos_def)
  have A1: "count_at ?A 1 = Inr 0"
    using candidates_makeSure_self [OF vp(1), of SudokuBoard_default 0 False]
    by (simp add: count_at_def getPossiblesCountAt_eq valid_val_def)
  have A0: "\<forall>j<1. count_at ?A j \<noteq> Inr 0"
    using candidates_makeSure_other [OF vp(1), of "GPos 0 0" SudokuBoard_default 0 False]
    by (simp add: count_at_def getPossiblesCountAt_eq valid_pos_def candidates_default)
  have A: "findMRVCell ?A = Inr (GPos 1 0, 0)"
    using findMRVCell_choice [of 1 ?A] A1 A0 by simp
  have Bc: "length (candidates ?B (GPos (j mod 9) (j div 9))) = (if j = 2 then 8 else 9)" if "j < 81" for j
  proof -
    have "candidates ?B (GPos (j mod 9) (j div 9)) =
        filter (\<lambda>v. \<not> (GPos (j mod 9) (j div 9) = GPos 2 0 \<and> v = 5)) [1..<10]"
      unfolding candidates_def
    proof (rule filter_cong [OF refl])
      fix v assume "v \<in> set [1..<10]"
      then have v: "valid_val v" by (simp only: valid_val_upt)
      have 5: "valid_val 5" by (simp add: valid_val_def)
      show "cand ?B (GPos (j mod 9) (j div 9)) v = (\<not> (GPos (j mod 9) (j div 9) = GPos 2 0 \<and> v = 5))"
        using cand_setP [OF vp(2) valid_cell_index [OF that] 5 v, of SudokuBoard_default False]
        by (auto simp add: cand_default)
    qed
    moreover have "GPos (j mod 9) (j div 9) = GPos 2 0 \<longleftrightarrow> j = 2"
      using cell_index_inj [OF that, of 2 0] by auto
    ultimately show ?thesis by (simp add: upt_1_10)
  qed
  have Bn: "count_at ?B j = Inr (if j = 2 then 8 else 9)" if "j < 81" for j
    using Bc [OF that] by (simp add: count_at_def getPossiblesCountAt_eq)
  have B1: "\<forall>j<81. count_at ?B j \<noteq> Inr 0" using Bn by simp
  have B2: "count_at ?B 2 = Inr 8" using Bn [of 2] by simp
  have B3: "\<forall>j<81. \<forall>c'. count_at ?B j = Inr c' \<and> 2 \<le> c' \<longrightarrow> 8 \<le> c'"
  proof (intro allI impI)
    fix j c' :: nat
    assume j: "j < 81" and c: "count_at ?B j = Inr c' \<and> 2 \<le> c'"
    show "8 \<le> c'" using Bn [OF j] c by (cases "j = 2") simp_all
  qed
  have B4: "\<forall>j<2. count_at ?B j \<noteq> Inr 8"
  proof (intro allI impI)
    fix j :: nat
    assume j: "j < 2"
    then have "j < 81" "j \<noteq> 2" by simp_all
    then show "count_at ?B j \<noteq> Inr 8" using Bn [of j] by simp
  qed
  have B5: "(2::nat) < 81 \<and> (2::nat) \<le> 8" by simp
  have "findMRVCell ?B = Inr (GPos (2 mod 9) (2 div 9), 8)"
    using findMRVCell_choice [of 2 ?B 8] B1 B2 B3 B4 B5 by blast
  then have B: "findMRVCell ?B = Inr (GPos 2 0, 8)" by simp
  have C1: "\<forall>j<81. count_at one_board j = Inr 1"
    by (simp add: count_at_def getPossiblesCountAt_eq candidates_one_board)
  have C: "findMRVCell one_board = Inl runtime_error"
    using findMRVCell_choice [of _ one_board] C1 by blast
  have D: "findMRVCell (SudokuBoard_of (copyData one_board)) = findMRVCell one_board"
    using findMRVCell_choice [of _ one_board _ "SudokuBoard_of (copyData one_board)"]
    by (simp add: SudokuBoard_of_def copyData_def)
  have S: "snd (setPossibleAt SudokuBoard_default (GPos 2 0) 5 False) = ?B"
    by (simp add: setPossibleAt_eq valid_val_def)
  show ?thesis
    using A B C D by (simp add: makeSureAt_eq S)
qed

subsection \<open>C3\<close>

text \<open>
  Claim C3. In \<^verbatim>\<open>dfsSolve\<close>, when the branch of a candidate \<open>v\<close> fails, that is when the
  recursive call returns \<^verbatim>\<open>false\<close>, the 12 words of the board after the rollback are those
  of the snapshot \<^verbatim>\<open>copyData()\<close> taken before the trial assignment, whatever the
  recursion has eliminated. So the loop over the candidates, when it ends without a
  solution, leaves the board as it found it. In the example the cell \<open>(1, 0)\<close> only has the
  candidate 1 and the trial assignment is 1 at \<open>(0, 0)\<close>: the recursive call clears 20
  flags in its pass, meets the empty cell \<open>(1, 0)\<close> and fails.
\<close>

theorem rollback_exact:
  "(dfs_try (dfsSolve aL sL eL False) aL pos v branchIndex st = Inr (False, st')
      \<longrightarrow> bitset (dfs_board st') = copyData (dfs_board st)) \<and>
   (dfs_candidates (dfsSolve aL sL eL False) aL pos vs branchIndex st = Inr (False, st'')
      \<longrightarrow> bitset (dfs_board st'') = copyData (dfs_board st))"
proof (intro conjI impI)
  assume "dfs_try (dfsSolve aL sL eL False) aL pos v branchIndex st = Inr (False, st')"
  then show "bitset (dfs_board st') = copyData (dfs_board st)"
    unfolding dfs_try_def Let_def
    by (auto simp add: bindE_def SudokuBoard_of_def split: sum.splits prod.splits if_splits)
next
  assume "dfs_candidates (dfsSolve aL sL eL False) aL pos vs branchIndex st = Inr (False, st'')"
  then have "dfs_board st'' = dfs_board st"
  proof (induction vs arbitrary: branchIndex st)
    case Nil
    then show ?case by simp
  next
    case (Cons v vs)
    from Cons.prems obtain y where
      1: "dfs_try (dfsSolve aL sL eL False) aL pos v branchIndex st = Inr (False, y)"
      and 2: "dfs_candidates (dfsSolve aL sL eL False) aL pos vs (branchIndex + 1) y = Inr (False, st'')"
      by (auto simp add: bindE_def split: sum.splits prod.splits if_splits)
    show ?case using Cons.IH [OF 2] dfs_try_board [OF 1] by simp
  qed
  then show "bitset (dfs_board st'') = copyData (dfs_board st)" by (simp add: copyData_def)
qed

theorem rollback_exact_witness:
  "bindE (makeSureAt SudokuBoard_default (GPos 1 0) 1 False) (\<lambda>b0.
     bindE (dfs_try (dfsSolve ignore_assign record_search_pass ignore_search_elimination False)
              ignore_assign (GPos 0 0) 1 0
              \<lparr>dfs_board = b0, dfs_path = [0], dfs_assigned = replicate 81 False, dfs_obs = []\<rparr>)
       (\<lambda>(found, st'). Inr (found, bitset (dfs_board st') = copyData b0, dfs_path st', dfs_obs st'))) =
   Inr (False, True, [0], [(0, 20, 20)]) \<and>
   bindE (makeSureAt SudokuBoard_default (GPos 1 0) 1 False) (\<lambda>b0.
     bindE (dfs_candidates (dfsSolve ignore_assign record_search_pass ignore_search_elimination False)
              ignore_assign (GPos 0 0) [1] 0
              \<lparr>dfs_board = b0, dfs_path = [0], dfs_assigned = replicate 81 False, dfs_obs = []\<rparr>)
       (\<lambda>(found, st'). Inr (found, bitset (dfs_board st') = copyData b0, dfs_path st', dfs_obs st'))) =
   Inr (False, True, [0], [(0, 20, 20)])"
proof -
  let ?b0 = "makeSure SudokuBoard_default (GPos 1 0) 1 False"
  let ?st = "\<lparr>dfs_board = ?b0, dfs_path = [0], dfs_assigned = replicate 81 False,
              dfs_obs = ([] :: (nat \<times> nat \<times> nat) list)\<rparr>"
  let ?rec = "dfsSolve ignore_assign record_search_pass ignore_search_elimination False"
  obtain b' where
    r: "?rec \<lparr>dfs_board = makeSure ?b0 (GPos 0 0) 1 False, dfs_path = [0] @ [0],
               dfs_assigned = replicate 81 False, dfs_obs = []\<rparr> =
        Inr (False, \<lparr>dfs_board = b', dfs_path = [0] @ [0], dfs_assigned = replicate 81 False,
                     dfs_obs = [(0, 20, 20)]\<rparr>)"
    using failing_branch [of "[0] @ [0]" "replicate 81 False"] by blast
  let ?st' = "?st\<lparr>dfs_board := SudokuBoard_of (copyData ?b0), dfs_obs := [(0, 20, 20)]\<rparr>"
  have t: "dfs_try ?rec ignore_assign (GPos 0 0) 1 0 ?st = Inr (False, ?st')"
    using r unfolding dfs_try_def Let_def makeSureAt_eq bindE_Inr
    by (simp add: ignore_assign_def)
  have c: "dfs_candidates ?rec ignore_assign (GPos 0 0) [1] 0 ?st = Inr (False, ?st')"
    by (simp only: dfs_candidates.simps t bindE_Inr prod.case if_False)
  have "bitset (dfs_board ?st') = copyData (dfs_board ?st)"
    using rollback_exact [of ignore_assign record_search_pass ignore_search_elimination
        "GPos 0 0" 1 0 ?st ?st' "[1]" ?st'] t c by blast
  then show ?thesis using t c by (simp add: makeSureAt_eq)
qed

subsection \<open>C8\<close>


end
